theory Spec2Isabelle
  imports Complex_Main "HOL-Library.Word" "HOL-Library.Sublist"
begin

unbundle bit_operations_syntax

section \<open>JavaScript strings\<close>

text \<open>
  A JavaScript string is a finite sequence of UTF-16 code units. String literals of the
  source (all of them ASCII) are written \<open>js ''...''\<close>.
\<close>

type_synonym code_unit = "16 word"
type_synonym jsstring = "code_unit list"

definition js :: "string \<Rightarrow> jsstring" where
  "js s = map of_char s"

text \<open>
  \<open>String.prototype.trim\<close> removes the WhiteSpace and LineTerminator code points of
  ECMAScript from both ends: TAB, VT, FF, SP, NBSP, ZWNBSP, the Unicode space separators,
  and LF, CR, LS, PS. All of them are single code units.
\<close>

definition isWhiteSpace :: "code_unit \<Rightarrow> bool" where
  "isWhiteSpace c \<longleftrightarrow>
     c = 0x0009 \<or> c = 0x000B \<or> c = 0x000C \<or> c = 0x0020 \<or> c = 0x00A0 \<or> c = 0xFEFF \<or>
     c = 0x1680 \<or> (0x2000 \<le> c \<and> c \<le> 0x200A) \<or> c = 0x202F \<or> c = 0x205F \<or> c = 0x3000"

definition isLineTerminator :: "code_unit \<Rightarrow> bool" where
  "isLineTerminator c \<longleftrightarrow> c = 0x000A \<or> c = 0x000D \<or> c = 0x2028 \<or> c = 0x2029"

definition isTrimmable :: "code_unit \<Rightarrow> bool" where
  "isTrimmable c \<longleftrightarrow> isWhiteSpace c \<or> isLineTerminator c"

definition trimStart :: "jsstring \<Rightarrow> jsstring" where
  "trimStart s = dropWhile isTrimmable s"

definition trimEnd :: "jsstring \<Rightarrow> jsstring" where
  "trimEnd s = rev (dropWhile isTrimmable (rev s))"

definition trim :: "jsstring \<Rightarrow> jsstring" where
  "trim s = trimEnd (trimStart s)"

text \<open>A string is blank when it is empty or consists of trimmable code units only.\<close>

definition blank :: "jsstring \<Rightarrow> bool" where
  "blank s \<longleftrightarrow> list_all isTrimmable s"

text \<open>
  \<open>String.prototype.includes\<close> with the default start position: the search string
  occurs at some position of the receiver; the empty search string occurs everywhere.
\<close>

fun includes_js :: "jsstring \<Rightarrow> jsstring \<Rightarrow> bool" where
  "includes_js [] q = (q = [])"
| "includes_js (c # cs) q = (prefix q (c # cs) \<or> includes_js cs q)"

text \<open>
  \<open>String.prototype.toLowerCase\<close> follows the Unicode case tables of the engine, which
  are not part of the repository: the functions below take the conversion as the
  parameter \<open>toLowerCase\<close>. On strings of ASCII code units it is the function
  \<open>toLowerCase_ascii\<close>, which the concrete examples use.
\<close>

definition toLowerCase_ascii :: "jsstring \<Rightarrow> jsstring" where
  "toLowerCase_ascii s = map (\<lambda>c. if 0x41 \<le> c \<and> c \<le> 0x5A then c + 0x20 else c) s"

text \<open>
  \<open>Number.prototype.toString\<close> on an integer (every value of \<open>Date.now()\<close> is one):
  its decimal digits, with a leading minus sign (\<open>0x2D\<close>) when negative. The exponent
  notation of JavaScript starts at \<open>10^21\<close>, far above any time value.
\<close>

fun nat_digits :: "nat \<Rightarrow> jsstring" where
  "nat_digits n =
     (if n < 10 then [0x30 + of_nat n]
      else nat_digits (n div 10) @ [0x30 + of_nat (n mod 10)])"

declare nat_digits.simps [simp del]

definition Number_toString :: "int \<Rightarrow> jsstring" where
  "Number_toString n = (if n < 0 then 0x2D # nat_digits (nat (- n)) else nat_digits (nat n))"

section \<open>Tasks and the component state\<close>

text \<open>
  A task object \<open>{id, text, completed, createdAt}\<close>, and the state cells of
  \<open>TodoApp\<close> (one field per \<open>useState\<close>/\<open>useLocalStorage\<close> hook). The fields
  \<open>id\<close>, \<open>text\<close> and \<open>filter\<close> carry a suffix because the plain names are taken.
\<close>

record task =
  id_t :: jsstring
  text_t :: jsstring
  completed :: bool
  createdAt :: int

record todoapp =
  tasks :: "task list"
  text_s :: jsstring
  filter_s :: jsstring
  query :: jsstring
  editingId :: "jsstring option"
  editingText :: jsstring

text \<open>The state of the first render when nothing is stored: every hook at its initial value.\<close>

definition initial :: todoapp where
  "initial = \<lparr>tasks = [], text_s = [], filter_s = js ''all'', query = [],
              editingId = None, editingText = []\<rparr>"

section \<open>The derived view\<close>

text \<open>
  \<open>filtered\<close> (the \<open>useMemo\<close> of lines 124-130) as a function of its dependencies
  \<open>[tasks, filter, query]\<close>: two \<open>Array.prototype.filter\<close> passes.
\<close>

definition filtered ::
  "(jsstring \<Rightarrow> jsstring) \<Rightarrow> task list \<Rightarrow> jsstring \<Rightarrow> jsstring \<Rightarrow> task list" where
  "filtered toLowerCase ts f q =
     filter (\<lambda>t. includes_js (toLowerCase (text_t t)) (toLowerCase (trim q)))
       (filter (\<lambda>t. if f = js ''all'' then True
                     else if f = js ''active'' then \<not> completed t
                     else completed t) ts)"

text \<open>
  The view as the specification words it. A task passes the status filter when the
  filter is \<open>all\<close>, or \<open>active\<close> and the task is not completed, or \<open>done\<close> and the task
  is completed. A text contains a query as a case-insensitive substring when the
  lower-cased query occurs in the lower-cased text.
\<close>

definition passes_status :: "jsstring \<Rightarrow> task \<Rightarrow> bool" where
  "passes_status f t \<longleftrightarrow>
     f = js ''all'' \<or> (f = js ''active'' \<and> \<not> completed t) \<or> (f = js ''done'' \<and> completed t)"

definition contains_ci :: "(jsstring \<Rightarrow> jsstring) \<Rightarrow> jsstring \<Rightarrow> jsstring \<Rightarrow> bool" where
  "contains_ci toLowerCase s q \<longleftrightarrow>
     (\<exists>before after. toLowerCase s = before @ toLowerCase q @ after)"

section \<open>The event handlers\<close>

text \<open>
  \<open>addTask\<close> reads the clock twice and the random generator once; the three results are
  its first arguments: \<open>now_id\<close> and \<open>now_created\<close> are the values of \<open>Date.now()\<close>,
  and \<open>rnd\<close> is the string \<open>Math.random().toString(36).slice(2, 8)\<close>.
\<close>

definition new_id :: "int \<Rightarrow> jsstring \<Rightarrow> jsstring" where
  "new_id now_id rnd = Number_toString now_id @ js ''_'' @ rnd"

definition addTask :: "int \<Rightarrow> jsstring \<Rightarrow> int \<Rightarrow> todoapp \<Rightarrow> todoapp" where
  "addTask now_id rnd now_created st =
     (let val = trim (text_s st) in
      if val = [] then st
      else
        let newTask = \<lparr>id_t = new_id now_id rnd, text_t = val, completed = False,
                         createdAt = now_created\<rparr>
        in st\<lparr>tasks := newTask # tasks st, text_s := []\<rparr>)"

definition toggleTask :: "jsstring \<Rightarrow> todoapp \<Rightarrow> todoapp" where
  "toggleTask i st =
     st\<lparr>tasks := map (\<lambda>t. if id_t t = i then t\<lparr>completed := \<not> completed t\<rparr> else t) (tasks st)\<rparr>"

definition deleteTask :: "jsstring \<Rightarrow> todoapp \<Rightarrow> todoapp" where
  "deleteTask i st = st\<lparr>tasks := filter (\<lambda>t. id_t t \<noteq> i) (tasks st)\<rparr>"

definition clearCompleted :: "todoapp \<Rightarrow> todoapp" where
  "clearCompleted st = st\<lparr>tasks := filter (\<lambda>t. \<not> completed t) (tasks st)\<rparr>"

definition startEdit :: "jsstring \<Rightarrow> todoapp \<Rightarrow> todoapp" where
  "startEdit i st =
     (case find (\<lambda>x. id_t x = i) (tasks st) of
        None \<Rightarrow> st
      | Some t \<Rightarrow> st\<lparr>editingId := Some i, editingText := text_t t\<rparr>)"

definition saveEdit :: "todoapp \<Rightarrow> todoapp" where
  "saveEdit st =
     (let val = trim (editingText st) in
      if val = [] then st\<lparr>editingId := None, editingText := []\<rparr>
      else st\<lparr>tasks := map (\<lambda>t. if Some (id_t t) = editingId st then t\<lparr>text_t := val\<rparr> else t)
                           (tasks st),
              editingId := None, editingText := []\<rparr>)"

text \<open>
  The operations of the task store as the user triggers them. \<open>add s\<close>: the input box
  holds \<open>s\<close> (its \<open>onChange\<close> is \<open>setText\<close>) when \<open>addTask\<close> runs. \<open>edit i s\<close>: task \<open>i\<close>
  is the one being edited and the edit box holds \<open>s\<close> (its \<open>onChange\<close> is
  \<open>setEditingText\<close>) when \<open>saveEdit\<close> runs.
\<close>

definition add :: "jsstring \<Rightarrow> int \<Rightarrow> jsstring \<Rightarrow> int \<Rightarrow> todoapp \<Rightarrow> todoapp" where
  "add s now_id rnd now_created st = addTask now_id rnd now_created (st\<lparr>text_s := s\<rparr>)"

definition edit :: "jsstring \<Rightarrow> jsstring \<Rightarrow> todoapp \<Rightarrow> todoapp" where
  "edit i s st = saveEdit (st\<lparr>editingId := Some i, editingText := s\<rparr>)"

section \<open>Sequences of operations\<close>

text \<open>
  The operations a user can perform on the task store, with the clock and random values
  an \<open>Add\<close> will read, and their execution in order from a given state.
\<close>

datatype op =
    Add jsstring int jsstring int
  | Toggle jsstring
  | Edit jsstring jsstring
  | Delete jsstring
  | ClearCompleted

fun step :: "op \<Rightarrow> todoapp \<Rightarrow> todoapp" where
  "step (Add s now_id rnd now_created) st = add s now_id rnd now_created st"
| "step (Toggle i) st = toggleTask i st"
| "step (Edit i s) st = edit i s st"
| "step (Delete i) st = deleteTask i st"
| "step ClearCompleted st = clearCompleted st"

fun run :: "op list \<Rightarrow> todoapp \<Rightarrow> todoapp" where
  "run [] st = st"
| "run (x # xs) st = run xs (step x st)"

text \<open>
  The generator hands out fresh ids along a run: whenever an \<open>Add\<close> creates a task, the
  id built from its clock and random values is carried by no task of the list at that
  moment.
\<close>

fun generated_fresh :: "op \<Rightarrow> todoapp \<Rightarrow> bool" where
  "generated_fresh (Add s now_id rnd now_created) st =
     (trim s = [] \<or> new_id now_id rnd \<notin> set (map id_t (tasks st)))"
| "generated_fresh _ st = True"

fun fresh_ids :: "op list \<Rightarrow> todoapp \<Rightarrow> bool" where
  "fresh_ids [] st = True"
| "fresh_ids (x # xs) st = (generated_fresh x st \<and> fresh_ids xs (step x st))"

text \<open>The invariant of the task list: no blank text, no id twice.\<close>

definition store_invariant :: "task list \<Rightarrow> bool" where
  "store_invariant ts \<longleftrightarrow>
     list_all (\<lambda>t. text_t t \<noteq> [] \<and> \<not> blank (text_t t)) ts \<and> distinct (map id_t ts)"

section \<open>JSON values\<close>

text \<open>
  Code units are written in hexadecimal: \<open>0x22\<close> is the double quote, \<open>0x5C\<close> the
  backslash, \<open>0x2F\<close> the slash, \<open>0x2C\<close> the comma, \<open>0x3A\<close> the colon, \<open>0x5B\<close> and
  \<open>0x5D\<close> the brackets, \<open>0x7B\<close> and \<open>0x7D\<close> the braces, \<open>0x2D\<close>, \<open>0x2B\<close> and \<open>0x2E\<close>
  minus, plus and point, \<open>0x30\<close> to \<open>0x39\<close> the digits, \<open>0x65\<close> and \<open>0x45\<close> the letter
  \<open>e\<close>, and \<open>0x62 0x66 0x6E 0x72 0x74 0x75\<close> the letters \<open>b f n r t u\<close> of the escapes.

  The values \<open>JSON.parse\<close> can return. An object lists its properties in creation
  order. A number carries the exact decimal value of its literal; the engine rounds that
  value to the nearest double, which changes nothing for integers of magnitude up to
  \<open>2^53\<close>, the range of \<open>Date.now()\<close>.
\<close>

datatype json =
    JNull
  | JBool bool
  | JNum rat
  | JStr jsstring
  | JArr "json list"
  | JObj "(jsstring \<times> json) list"

text \<open>What a \<open>try\<close> block of the source can catch.\<close>

datatype error = SyntaxError | QuotaExceededError | SecurityError

section \<open>JSON.stringify on a task list\<close>

text \<open>
  \<open>QuoteJSONString\<close>: the two-character escapes, \<open>\uXXXX\<close> (lower-case hex) for the other
  control characters and for lone surrogates, every other code unit as it is; a leading
  surrogate followed by a trailing one is a code point and is not escaped.
\<close>

definition isLeadingSurrogate :: "code_unit \<Rightarrow> bool" where
  "isLeadingSurrogate c \<longleftrightarrow> 0xD800 \<le> c \<and> c \<le> 0xDBFF"

definition isTrailingSurrogate :: "code_unit \<Rightarrow> bool" where
  "isTrailingSurrogate c \<longleftrightarrow> 0xDC00 \<le> c \<and> c \<le> 0xDFFF"

definition hex_digit :: "nat \<Rightarrow> code_unit" where
  "hex_digit d = (if d < 10 then of_nat (48 + d) else of_nat (87 + d))"

definition UnicodeEscape :: "code_unit \<Rightarrow> jsstring" where
  "UnicodeEscape c =
     [0x5C, 0x75, hex_digit (unat c div 4096), hex_digit (unat c div 256 mod 16),
      hex_digit (unat c div 16 mod 16), hex_digit (unat c mod 16)]"

definition quote_unit :: "code_unit \<Rightarrow> jsstring" where
  "quote_unit c =
     (if c = 0x08 then [0x5C, 0x62]
      else if c = 0x09 then [0x5C, 0x74]
      else if c = 0x0A then [0x5C, 0x6E]
      else if c = 0x0C then [0x5C, 0x66]
      else if c = 0x0D then [0x5C, 0x72]
      else if c = 0x22 then [0x5C, 0x22]
      else if c = 0x5C then [0x5C, 0x5C]
      else if c < 0x20 \<or> isLeadingSurrogate c \<or> isTrailingSurrogate c then UnicodeEscape c
      else [c])"

fun quote_units :: "jsstring \<Rightarrow> jsstring" where
  "quote_units [] = []"
| "quote_units [c] = quote_unit c"
| "quote_units (c # d # cs) =
     (if isLeadingSurrogate c \<and> isTrailingSurrogate d then c # d # quote_units cs
      else quote_unit c @ quote_units (d # cs))"

definition QuoteJSONString :: "jsstring \<Rightarrow> jsstring" where
  "QuoteJSONString s = 0x22 # quote_units s @ [0x22]"

text \<open>
  \<open>JSON.stringify(value)\<close> where \<open>value\<close> is the task list: an array of objects with the
  four own properties of a task in creation order, without white space.
\<close>

definition stringify_task :: "task \<Rightarrow> jsstring" where
  "stringify_task t =
     js ''{'' @ QuoteJSONString (js ''id'') @ js '':'' @ QuoteJSONString (id_t t) @
     js '','' @ QuoteJSONString (js ''text'') @ js '':'' @ QuoteJSONString (text_t t) @
     js '','' @ QuoteJSONString (js ''completed'') @ js '':'' @
       (if completed t then js ''true'' else js ''false'') @
     js '','' @ QuoteJSONString (js ''createdAt'') @ js '':'' @ Number_toString (createdAt t) @
     js ''}''"

fun join_comma :: "jsstring list \<Rightarrow> jsstring" where
  "join_comma [] = []"
| "join_comma [x] = x"
| "join_comma (x # y # ys) = x @ 0x2C # join_comma (y # ys)"

definition JSON_stringify :: "task list \<Rightarrow> jsstring" where
  "JSON_stringify ts = js ''['' @ join_comma (map stringify_task ts) @ js '']''"

text \<open>The task list as a JavaScript value.\<close>

definition task_value :: "task \<Rightarrow> json" where
  "task_value t =
     JObj [(js ''id'', JStr (id_t t)), (js ''text'', JStr (text_t t)),
           (js ''completed'', JBool (completed t)),
           (js ''createdAt'', JNum (of_int (createdAt t)))]"

definition tasks_value :: "task list \<Rightarrow> json" where
  "tasks_value ts = JArr (map task_value ts)"

section \<open>JSON.parse\<close>

text \<open>
  The JSON grammar: white space is TAB, LF, CR and SP; a string may hold any code unit
  but the quote, the backslash and the control characters, and the escapes
  \<open>\" \\ \/ \b \f \n \r \t \uXXXX\<close>; a number is \<open>-? (0 | [1-9][0-9]*) (. [0-9]+)?
  ([eE] [+-]? [0-9]+)?\<close>. Each parser returns its result and the rest of the input,
  or \<open>None\<close> when the input is not of the grammar.
\<close>

definition isJSONWhiteSpace :: "code_unit \<Rightarrow> bool" where
  "isJSONWhiteSpace c \<longleftrightarrow> c = 0x09 \<or> c = 0x0A \<or> c = 0x0D \<or> c = 0x20"

definition skip_ws :: "jsstring \<Rightarrow> jsstring" where
  "skip_ws s = dropWhile isJSONWhiteSpace s"

definition hex_value :: "code_unit \<Rightarrow> nat option" where
  "hex_value c =
     (if 0x30 \<le> c \<and> c \<le> 0x39 then Some (unat c - 48)
      else if 0x61 \<le> c \<and> c \<le> 0x66 then Some (unat c - 87)
      else if 0x41 \<le> c \<and> c \<le> 0x46 then Some (unat c - 55)
      else None)"

definition hex4 :: "code_unit \<Rightarrow> code_unit \<Rightarrow> code_unit \<Rightarrow> code_unit \<Rightarrow> code_unit option" where
  "hex4 a b c d =
     (case (hex_value a, hex_value b, hex_value c, hex_value d) of
        (Some x, Some y, Some z, Some w) \<Rightarrow> Some (of_nat (((x * 16 + y) * 16 + z) * 16 + w))
      | _ \<Rightarrow> None)"

definition unescape :: "code_unit \<Rightarrow> code_unit option" where
  "unescape e =
     (if e = 0x22 then Some 0x22
      else if e = 0x5C then Some 0x5C
      else if e = 0x2F then Some 0x2F
      else if e = 0x62 then Some 0x08
      else if e = 0x66 then Some 0x0C
      else if e = 0x6E then Some 0x0A
      else if e = 0x72 then Some 0x0D
      else if e = 0x74 then Some 0x09
      else None)"

definition cons_result :: "'a \<Rightarrow> ('a list \<times> jsstring) option \<Rightarrow> ('a list \<times> jsstring) option" where
  "cons_result x r = map_option (\<lambda>(xs, rest). (x # xs, rest)) r"

fun parse_chars :: "jsstring \<Rightarrow> (jsstring \<times> jsstring) option" where
  "parse_chars [] = None"
| "parse_chars (c # cs) =
     (if c = 0x22 then Some ([], cs)
      else if c = 0x5C then
        (case cs of
           [] \<Rightarrow> None
         | e # r \<Rightarrow>
             if e = 0x75 then
               (case r of
                  h1 # h2 # h3 # h4 # r' \<Rightarrow>
                    (case hex4 h1 h2 h3 h4 of
                       None \<Rightarrow> None
                     | Some u \<Rightarrow> cons_result u (parse_chars r'))
                | _ \<Rightarrow> None)
             else
               (case unescape e of
                  None \<Rightarrow> None
                | Some u \<Rightarrow> cons_result u (parse_chars r)))
      else if c < 0x20 then None
      else cons_result c (parse_chars cs))"

definition isDigit :: "code_unit \<Rightarrow> bool" where
  "isDigit c \<longleftrightarrow> 0x30 \<le> c \<and> c \<le> 0x39"

definition digits_value :: "jsstring \<Rightarrow> nat" where
  "digits_value ds = foldl (\<lambda>a c. 10 * a + (unat c - 48)) 0 ds"

definition parse_fraction :: "jsstring \<Rightarrow> (rat \<times> jsstring) option" where
  "parse_fraction s =
     (case s of
        [] \<Rightarrow> Some (0, s)
      | c # cs \<Rightarrow>
          if c = 0x2E then
            (let ds = takeWhile isDigit cs in
             if ds = [] then None
             else Some (of_nat (digits_value ds) / 10 ^ length ds, dropWhile isDigit cs))
          else Some (0, s))"

definition parse_exponent :: "jsstring \<Rightarrow> (int \<times> jsstring) option" where
  "parse_exponent s =
     (case s of
        [] \<Rightarrow> Some (0, s)
      | c # cs \<Rightarrow>
          if c = 0x65 \<or> c = 0x45 then
            (let (neg, r) = (case cs of
                               [] \<Rightarrow> (False, cs)
                             | d # ds \<Rightarrow> if d = 0x2D then (True, ds)
                                        else if d = 0x2B then (False, ds) else (False, cs));
                 ds = takeWhile isDigit r in
             if ds = [] then None
             else Some (if neg then - int (digits_value ds) else int (digits_value ds),
                        dropWhile isDigit r))
          else Some (0, s))"

definition scale10 :: "rat \<Rightarrow> int \<Rightarrow> rat" where
  "scale10 x e = (if 0 \<le> e then x * 10 ^ nat e else x / 10 ^ nat (- e))"

definition parse_number :: "jsstring \<Rightarrow> (rat \<times> jsstring) option" where
  "parse_number s =
     (let (neg, s1) = (case s of
                         [] \<Rightarrow> (False, s)
                       | c # cs \<Rightarrow> if c = 0x2D then (True, cs) else (False, s));
          ip = takeWhile isDigit s1
      in
        if ip = [] \<or> (hd ip = 0x30 \<and> length ip > 1) then None
        else
          (case parse_fraction (dropWhile isDigit s1) of
             None \<Rightarrow> None
           | Some (fr, s2) \<Rightarrow>
               (case parse_exponent s2 of
                  None \<Rightarrow> None
                | Some (ex, s3) \<Rightarrow>
                    let m = of_nat (digits_value ip) + fr
                    in Some (scale10 (if neg then - m else m) ex, s3))))"

text \<open>A property defined twice keeps its first position and its last value.\<close>

fun set_property :: "jsstring \<Rightarrow> json \<Rightarrow> (jsstring \<times> json) list \<Rightarrow> (jsstring \<times> json) list" where
  "set_property k v [] = [(k, v)]"
| "set_property k v (p # ps) = (if fst p = k then (k, v) # ps else p # set_property k v ps)"

definition make_object :: "(jsstring \<times> json) list \<Rightarrow> json" where
  "make_object ms = JObj (foldl (\<lambda>ps (k, v). set_property k v ps) [] ms)"

text \<open>
  Values, array elements and object members. The first argument bounds the depth of the
  recursion; \<open>JSON_parse\<close> starts it at \<open>2 * length s + 1\<close>, more than an input of that
  length can use.
\<close>

fun parse_value :: "nat \<Rightarrow> jsstring \<Rightarrow> (json \<times> jsstring) option"
  and parse_elements :: "nat \<Rightarrow> jsstring \<Rightarrow> (json list \<times> jsstring) option"
  and parse_members :: "nat \<Rightarrow> jsstring \<Rightarrow> ((jsstring \<times> json) list \<times> jsstring) option"
where
  "parse_value 0 s = None"
| "parse_value (Suc n) s =
     (case skip_ws s of
        [] \<Rightarrow> None
      | c # cs \<Rightarrow>
          if c = 0x7B then
            (case skip_ws cs of
               [] \<Rightarrow> None
             | d # ds \<Rightarrow>
                 if d = 0x7D then Some (JObj [], ds)
                 else map_option (\<lambda>(ms, r). (make_object ms, r)) (parse_members n (d # ds)))
          else if c = 0x5B then
            (case skip_ws cs of
               [] \<Rightarrow> None
             | d # ds \<Rightarrow>
                 if d = 0x5D then Some (JArr [], ds)
                 else map_option (\<lambda>(vs, r). (JArr vs, r)) (parse_elements n (d # ds)))
          else if c = 0x22 then map_option (\<lambda>(str, r). (JStr str, r)) (parse_chars cs)
          else if prefix (js ''true'') (c # cs) then Some (JBool True, drop 4 (c # cs))
          else if prefix (js ''false'') (c # cs) then Some (JBool False, drop 5 (c # cs))
          else if prefix (js ''null'') (c # cs) then Some (JNull, drop 4 (c # cs))
          else map_option (\<lambda>(x, r). (JNum x, r)) (parse_number (c # cs)))"
| "parse_elements 0 s = None"
| "parse_elements (Suc n) s =
     (case parse_value n s of
        None \<Rightarrow> None
      | Some (v, r) \<Rightarrow>
          (case skip_ws r of
             [] \<Rightarrow> None
           | c # cs \<Rightarrow>
               if c = 0x5D then Some ([v], cs)
               else if c = 0x2C then cons_result v (parse_elements n cs)
               else None))"
| "parse_members 0 s = None"
| "parse_members (Suc n) s =
     (case skip_ws s of
        [] \<Rightarrow> None
      | q # cs \<Rightarrow>
          if q = 0x22 then
            (case parse_chars cs of
               None \<Rightarrow> None
             | Some (k, r) \<Rightarrow>
                 (case skip_ws r of
                    [] \<Rightarrow> None
                  | d # ds \<Rightarrow>
                      if d = 0x3A then
                        (case parse_value n ds of
                           None \<Rightarrow> None
                         | Some (v, r2) \<Rightarrow>
                             (case skip_ws r2 of
                                [] \<Rightarrow> None
                              | e # es \<Rightarrow>
                                  if e = 0x7D then Some ([(k, v)], es)
                                  else if e = 0x2C then cons_result (k, v) (parse_members n es)
                                  else None))
                      else None))
          else None)"

definition JSON_parse :: "jsstring \<Rightarrow> error + json" where
  "JSON_parse s =
     (case parse_value (2 * length s + 1) s of
        None \<Rightarrow> Inl SyntaxError
      | Some (v, r) \<Rightarrow> if skip_ws r = [] then Inr v else Inl SyntaxError)"

section \<open>The storage hook\<close>

text \<open>
  \<open>localStorage\<close> maps keys to strings. Whether the browser lets a read through
  (\<open>readable\<close>) and whether it accepts a write (\<open>accepted\<close>: quota, private mode) are
  inputs. \<open>useLocalStorage_init\<close> is the initializer passed to \<open>useState\<close> (lines 12-19),
  \<open>useLocalStorage_effect\<close> the effect that runs after every change of the value
  (lines 20-24); both are a \<open>try\<close> with a \<open>catch\<close> that swallows the error.
\<close>

type_synonym storage = "jsstring \<Rightarrow> jsstring option"

definition getItem :: "bool \<Rightarrow> storage \<Rightarrow> jsstring \<Rightarrow> error + jsstring option" where
  "getItem readable store key = (if readable then Inr (store key) else Inl SecurityError)"

definition setItem :: "bool \<Rightarrow> storage \<Rightarrow> jsstring \<Rightarrow> jsstring \<Rightarrow> error + storage" where
  "setItem accepted store key v =
     (if accepted then Inr (store(key \<mapsto> v)) else Inl QuotaExceededError)"

definition try_catch :: "error + 'a \<Rightarrow> (error \<Rightarrow> error + 'a) \<Rightarrow> error + 'a" where
  "try_catch body handler = (case body of Inl e \<Rightarrow> handler e | Inr v \<Rightarrow> Inr v)"

definition useLocalStorage_init :: "bool \<Rightarrow> storage \<Rightarrow> jsstring \<Rightarrow> json \<Rightarrow> error + json" where
  "useLocalStorage_init readable store key initialValue =
     try_catch
       (case getItem readable store key of
          Inl e \<Rightarrow> Inl e
        | Inr raw \<Rightarrow>
            (case raw of
               None \<Rightarrow> Inr initialValue
             | Some r \<Rightarrow> if r = [] then Inr initialValue else JSON_parse r))
       (\<lambda>e. Inr initialValue)"

definition useLocalStorage_effect :: "bool \<Rightarrow> storage \<Rightarrow> jsstring \<Rightarrow> task list \<Rightarrow> error + storage" where
  "useLocalStorage_effect accepted store key v =
     try_catch (setItem accepted store key (JSON_stringify v)) (\<lambda>e. Inr store)"

section \<open>Example data\<close>

text \<open>The two-task list of the specification's examples, and a run of operations.\<close>

definition example_task :: task where
  "example_task = \<lparr>id_t = js ''1'', text_t = js ''Buy milk'', completed = False, createdAt = 0\<rparr>"

definition example_done :: task where
  "example_done = \<lparr>id_t = js ''2'', text_t = js ''Call mom'', completed = True, createdAt = 0\<rparr>"

definition example_state :: todoapp where
  "example_state = initial\<lparr>tasks := [example_task, example_done]\<rparr>"

text \<open>A list holding a task whose id the generator produces again.\<close>

definition clash_task :: task where
  "clash_task = \<lparr>id_t = js ''1700000000000_k3x9qz'', text_t = js ''Buy milk'', completed = False,
                  createdAt = 1700000000000\<rparr>"

definition clash_state :: todoapp where
  "clash_state = initial\<lparr>tasks := [clash_task]\<rparr>"

definition example_ops :: "op list" where
  "example_ops =
     [Add (js ''Buy milk'') 1700000000000 (js ''k3x9qz'') 1700000000000,
      Add (js ''   '') 1700000000001 (js ''k3x9qz'') 1700000000001,
      Add (js '' Call mom '') 1700000000002 (js ''k3x9qz'') 1700000000002,
      Toggle (js ''1700000000002_k3x9qz''),
      Edit (js ''1700000000000_k3x9qz'') (js '' Buy bread ''),
      Edit (js ''1700000000000_k3x9qz'') (js ''   ''),
      Add (js ''Walk dog'') 1700000000003 (js ''k3x9qz'') 1700000000003,
      Delete (js ''1700000000003_k3x9qz''),
      ClearCompleted]"

section \<open>Facts about strings\<close>

lemma trim_Nil_iff: "trim s = [] \<longleftrightarrow> blank s"
proof -
  have "trim s = [] \<longleftrightarrow> (\<forall>c \<in> set (dropWhile isTrimmable s). isTrimmable c)"
    by (simp add: trim_def trimEnd_def trimStart_def dropWhile_eq_Nil_conv)
  also have "\<dots> \<longleftrightarrow> dropWhile isTrimmable s = []"
  proof
    assume all: "\<forall>c \<in> set (dropWhile isTrimmable s). isTrimmable c"
    show "dropWhile isTrimmable s = []"
    proof (rule ccontr)
      assume ne: "dropWhile isTrimmable s \<noteq> []"
      then have "\<not> isTrimmable (hd (dropWhile isTrimmable s))"
        by (rule hd_dropWhile)
      moreover from ne have "hd (dropWhile isTrimmable s) \<in> set (dropWhile isTrimmable s)"
        by simp
      ultimately show False using all by blast
    qed
  next
    assume "dropWhile isTrimmable s = []"
    then show "\<forall>c \<in> set (dropWhile isTrimmable s). isTrimmable c"
      by (simp only: list.set ball_empty)
  qed
  also have "\<dots> \<longleftrightarrow> blank s"
    by (simp add: blank_def dropWhile_eq_Nil_conv list_all_iff)
  finally show ?thesis .
qed

lemma trimEnd_keeps_head:
  assumes "s \<noteq> []" and "\<not> isTrimmable (hd s)"
  shows "trimEnd s \<noteq> [] \<and> hd (trimEnd s) = hd s"
proof -
  obtain c cs where s: "s = c # cs" using assms(1) by (cases s) auto
  with assms(2) have c: "\<not> isTrimmable c" by simp
  have "dropWhile isTrimmable (rev cs @ [c]) = dropWhile isTrimmable (rev cs) @ [c]"
    using c by (simp add: dropWhile_append3 dropWhile_append)
  then have "trimEnd s = c # rev (dropWhile isTrimmable (rev cs))"
    by (simp add: trimEnd_def s)
  then show ?thesis by (simp add: s)
qed

lemma trimStart_fixed: "s = [] \<or> \<not> isTrimmable (hd s) \<Longrightarrow> trimStart s = s"
  by (cases s) (auto simp: trimStart_def)

lemma trimEnd_idem: "trimEnd (trimEnd s) = trimEnd s"
  by (simp add: trimEnd_def)

lemma trim_idem: "trim (trim s) = trim s"
proof (cases "trimStart s = []")
  case True
  then have "trim s = []" by (simp add: trim_def trimEnd_def)
  moreover have "trim [] = []" by (simp add: trim_def trimEnd_def trimStart_def)
  ultimately show ?thesis by simp
next
  case False
  then have "\<not> isTrimmable (hd (trimStart s))"
    unfolding trimStart_def by (rule hd_dropWhile)
  with False have "trimEnd (trimStart s) \<noteq> [] \<and> hd (trimEnd (trimStart s)) = hd (trimStart s)"
    by (simp add: trimEnd_keeps_head)
  with \<open>\<not> isTrimmable (hd (trimStart s))\<close>
  have "trimStart (trimEnd (trimStart s)) = trimEnd (trimStart s)"
    by (simp add: trimStart_fixed)
  then show ?thesis by (simp add: trim_def trimEnd_idem)
qed

lemma trim_not_blank: "trim s \<noteq> [] \<Longrightarrow> \<not> blank (trim s)"
  using trim_Nil_iff [of "trim s"] by (simp add: trim_idem)

lemma trim_padded:
  assumes "blank l" and "blank r"
  shows "trim (l @ s @ r) = trim s"
proof -
  have start: "trimStart (l @ s @ r) = trimStart (s @ r)"
    unfolding trimStart_def
    by (rule dropWhile_append2) (use assms(1) in \<open>auto simp: blank_def list_all_iff\<close>)
  show ?thesis
  proof (cases "blank s")
    case True
    with assms have "blank (l @ s @ r)" by (simp add: blank_def)
    with True show ?thesis by (simp flip: trim_Nil_iff)
  next
    case False
    then obtain c where c: "c \<in> set s" "\<not> isTrimmable c"
      by (auto simp: blank_def list_all_iff)
    then have "trimStart (s @ r) = trimStart s @ r"
      by (auto simp: trimStart_def dropWhile_append)
    moreover have "trimEnd (u @ r) = trimEnd u" for u
    proof -
      have "dropWhile isTrimmable (rev r @ rev u) = dropWhile isTrimmable (rev u)"
        by (rule dropWhile_append2) (use assms(2) in \<open>auto simp: blank_def list_all_iff\<close>)
      then show ?thesis by (simp add: trimEnd_def)
    qed
    ultimately show ?thesis by (simp add: trim_def start)
  qed
qed

lemma includes_js_sublist: "includes_js s q \<longleftrightarrow> sublist q s"
  by (induction s) (simp_all add: sublist_Cons_right)

lemmas string_eval =
  trim_def trimStart_def trimEnd_def isTrimmable_def isWhiteSpace_def isLineTerminator_def
  toLowerCase_ascii_def js_def

lemma includes_js_contains_ci:
  "includes_js (lc s) (lc q) \<longleftrightarrow> contains_ci lc s q"
  by (simp add: includes_js_sublist sublist_def contains_ci_def)

lemma status_literals:
  "js ''all'' \<noteq> js ''active''" "js ''all'' \<noteq> js ''done''" "js ''active'' \<noteq> js ''done''"
  by (simp_all add: js_def)

lemma trim_examples:
  "trim (js ''   '') = []" "trim (js '' Buy bread '') = js ''Buy bread''"
  "trim (js ''milk '') = js ''milk''"
  by (simp_all add: trim_def trimStart_def trimEnd_def isTrimmable_def isWhiteSpace_def
      isLineTerminator_def js_def)

lemma blank_spaces: "blank (js ''  '')" "blank (js '' '')"
  by (simp_all add: blank_def isTrimmable_def isWhiteSpace_def js_def)

lemma new_id_example: "new_id 1700000000000 (js ''k3x9qz'') = js ''1700000000000_k3x9qz''"
  by (simp add: new_id_def Number_toString_def nat_digits.simps js_def)

lemma example_tasks: "tasks example_state = [example_task, example_done]"
  by (simp add: example_state_def)

lemma map_unchanged: "(\<And>x. x \<in> set xs \<Longrightarrow> f x = x) \<Longrightarrow> map f xs = xs"
  by (rule map_idI)

section \<open>Toggling a task\<close>

text \<open>
  C6. Toggling is an involution: for every state and every id \<open>i\<close>, \<open>toggleTask i\<close> run
  twice in succession gives back the state it started from, hence a task list equal to
  the original one; in particular every \<open>completed\<close> flag, that of the task with id \<open>i\<close>
  included, is back at its original value.
\<close>

theorem toggleTask_involution:
  "toggleTask i (toggleTask i st) = st \<and>
   tasks (toggleTask i (toggleTask i st)) = tasks st \<and>
   map completed (tasks (toggleTask i (toggleTask i st))) = map completed (tasks st)"
proof -
  have "map (\<lambda>t. if id_t t = i then t\<lparr>completed := \<not> completed t\<rparr> else t)
          (map (\<lambda>t. if id_t t = i then t\<lparr>completed := \<not> completed t\<rparr> else t) (tasks st))
        = tasks st"
    by (simp add: map_idI)
  then have "toggleTask i (toggleTask i st) = st"
    by (simp add: toggleTask_def)
  then show ?thesis by simp
qed

section \<open>Clearing completed tasks\<close>

text \<open>
  C7. For every state, \<open>clearCompleted\<close> removes exactly the tasks whose \<open>completed\<close> flag
  is true: the new list is the old one filtered by \<open>\<not> completed\<close>, so it is a subsequence
  of the old list (relative order kept) holding exactly the tasks that are not completed;
  and running \<open>clearCompleted\<close> twice is the same as running it once.
\<close>

theorem clearCompleted_exact_idempotent:
  "tasks (clearCompleted st) = filter (\<lambda>t. \<not> completed t) (tasks st) \<and>
   subseq (tasks (clearCompleted st)) (tasks st) \<and>
   set (tasks (clearCompleted st)) = {t. t \<in> set (tasks st) \<and> \<not> completed t} \<and>
   clearCompleted (clearCompleted st) = clearCompleted st"
  by (auto simp: clearCompleted_def)

section \<open>Deleting, and operations on unknown ids\<close>

text \<open>
  C8. Deleting is idempotent: for every state and id \<open>i\<close>, \<open>deleteTask i\<close> run twice equals
  \<open>deleteTask i\<close> run once. Unknown ids are no-ops: when no task of the list has id \<open>i\<close>,
  \<open>deleteTask i\<close> and \<open>toggleTask i\<close> leave the state unchanged and \<open>edit i s\<close> leaves the
  task list unchanged, whatever the string \<open>s\<close>.
\<close>

theorem delete_idempotent_unknown_noop:
  "deleteTask i (deleteTask i st) = deleteTask i st \<and>
   (i \<notin> set (map id_t (tasks st)) \<longrightarrow>
      deleteTask i st = st \<and> tasks (deleteTask i st) = tasks st \<and>
      toggleTask i st = st \<and> tasks (toggleTask i st) = tasks st \<and>
      tasks (edit i s st) = tasks st)"
proof -
  have idem: "deleteTask i (deleteTask i st) = deleteTask i st"
    by (simp add: deleteTask_def)
  have noop: "deleteTask i st = st \<and> toggleTask i st = st \<and> tasks (edit i s st) = tasks st"
    if unknown: "i \<notin> set (map id_t (tasks st))"
  proof -
    from unknown have other: "id_t t \<noteq> i" if "t \<in> set (tasks st)" for t
      using that by auto
    then have "filter (\<lambda>t. id_t t \<noteq> i) (tasks st) = tasks st"
      by (simp add: filter_id_conv)
    moreover from other
    have "map (\<lambda>t. if id_t t = i then t\<lparr>completed := \<not> completed t\<rparr> else t) (tasks st) = tasks st"
      by (simp add: map_unchanged)
    moreover from other
    have "map (\<lambda>t. if id_t t = i then t\<lparr>text_t := v\<rparr> else t) (tasks st) = tasks st" for v
      by (simp add: map_unchanged)
    ultimately show ?thesis
      by (simp add: deleteTask_def toggleTask_def edit_def saveEdit_def Let_def)
  qed
  from idem noop show ?thesis by simp
qed

lemma js_neq_examples: "js ''9'' \<noteq> js ''1''" "js ''9'' \<noteq> js ''2''"
  by (simp_all add: js_def)

theorem delete_idempotent_unknown_noop_witness:
  "js ''9'' \<notin> set (map id_t (tasks example_state)) \<and>
   deleteTask (js ''9'') (deleteTask (js ''9'') example_state) = deleteTask (js ''9'') example_state \<and>
   deleteTask (js ''9'') example_state = example_state \<and>
   toggleTask (js ''9'') example_state = example_state \<and>
   tasks (edit (js ''9'') (js ''Buy bread'') example_state) = [example_task, example_done]"
proof -
  have unknown: "js ''9'' \<notin> set (map id_t (tasks example_state))"
    by (simp add: example_state_def example_task_def example_done_def js_neq_examples)
  from example_tasks unknown
    delete_idempotent_unknown_noop [of "js ''9''" example_state "js ''Buy bread''"]
  show ?thesis by simp
qed

section \<open>Adding a task\<close>

text \<open>
  C1 (as amended). For every state and string \<open>s\<close>: if \<open>s\<close> trims to the empty string,
  \<open>add s\<close> leaves the task list unchanged; otherwise the new list is one longer, its
  first element has text \<open>trim s\<close>, \<open>completed = false\<close>, the creation time read from the
  clock and the id made of the clock value, an underscore and the random suffix, and its
  remaining elements are exactly the old list in order. The id is generated, not
  checked: it is new to the list exactly when the generated string is carried by no
  task of the list.
\<close>

theorem add_prepends:
  "(trim s = [] \<longrightarrow> tasks (add s now_id rnd now_created st) = tasks st) \<and>
   (trim s \<noteq> [] \<longrightarrow>
      length (tasks (add s now_id rnd now_created st)) = length (tasks st) + 1 \<and>
      text_t (hd (tasks (add s now_id rnd now_created st))) = trim s \<and>
      completed (hd (tasks (add s now_id rnd now_created st))) = False \<and>
      id_t (hd (tasks (add s now_id rnd now_created st))) = Number_toString now_id @ js ''_'' @ rnd \<and>
      createdAt (hd (tasks (add s now_id rnd now_created st))) = now_created \<and>
      tl (tasks (add s now_id rnd now_created st)) = tasks st \<and>
      (id_t (hd (tasks (add s now_id rnd now_created st))) \<notin> set (map id_t (tasks st))
         \<longleftrightarrow> new_id now_id rnd \<notin> set (map id_t (tasks st))))"
  by (simp add: add_def addTask_def Let_def new_id_def)

theorem add_prepends_witness:
  "trim (js ''   '') = [] \<and>
   tasks (add (js ''   '') 1700000000000 (js ''k3x9qz'') 1700000000001 example_state) = [example_task, example_done] \<and>
   trim (js '' Buy bread '') \<noteq> [] \<and>
   tasks (add (js '' Buy bread '') 1700000000000 (js ''k3x9qz'') 1700000000001 example_state)
     = \<lparr>id_t = js ''1700000000000_k3x9qz'', text_t = js ''Buy bread'', completed = False,
         createdAt = 1700000000001\<rparr> # [example_task, example_done]"
proof -
  note ts = example_tasks
  have ne: "js ''Buy bread'' \<noteq> []" by (simp add: js_def)
  from add_prepends [of "js ''   ''" 1700000000000 "js ''k3x9qz''" 1700000000001 example_state]
  have a: "tasks (add (js ''   '') 1700000000000 (js ''k3x9qz'') 1700000000001 example_state) = [example_task, example_done]"
    by (simp add: trim_examples ts)
  define r where "r = tasks (add (js '' Buy bread '') 1700000000000 (js ''k3x9qz'') 1700000000001 example_state)"
  from add_prepends [of "js '' Buy bread ''" 1700000000000 "js ''k3x9qz''" 1700000000001 example_state]
  have b: "length r = 3" "text_t (hd r) = js ''Buy bread''" "completed (hd r) = False"
    "id_t (hd r) = js ''1700000000000_k3x9qz''" "createdAt (hd r) = 1700000000001"
    "tl r = [example_task, example_done]"
    using new_id_example by (simp_all add: trim_examples ts ne r_def new_id_def)
  from b(1) obtain x xs where r: "r = x # xs" by (cases r) auto
  with b have "x = \<lparr>id_t = js ''1700000000000_k3x9qz'', text_t = js ''Buy bread'', completed = False,
         createdAt = 1700000000001\<rparr>" "xs = [example_task, example_done]"
    by (cases x; simp)+
  with r a ne show ?thesis by (simp add: trim_examples r_def)
qed


text \<open>
  The claim as stated promises a fresh id. The clock and the random suffix can repeat:
  here the list already holds a task with the id that the generator returns, and the
  task added carries the same id.
\<close>

theorem add_fresh_id_counterexample:
  "trim (js '' Buy bread '') \<noteq> [] \<and>
   id_t (hd (tasks (add (js '' Buy bread '') 1700000000000 (js ''k3x9qz'') 1700000000000 clash_state)))
     \<in> set (map id_t (tasks clash_state))"
  by (simp add: add_def addTask_def Let_def trim_examples new_id_example clash_state_def
      clash_task_def) (simp add: js_def)

section \<open>Editing a task\<close>

text \<open>
  C5. For every state, id \<open>i\<close> and string \<open>s\<close>: if \<open>s\<close> trims to the empty string,
  \<open>edit i s\<close> leaves the task list unchanged; otherwise the list keeps its length and, at
  every position, the task keeps its id, \<open>completed\<close> and \<open>createdAt\<close>, its text becomes
  \<open>trim s\<close> when its id is \<open>i\<close>, and it is unchanged when its id is not \<open>i\<close>. (The
  statement needs no assumption that \<open>i\<close> is present.)
\<close>

theorem edit_replaces_text_only:
  "(trim s = [] \<longrightarrow> tasks (edit i s st) = tasks st) \<and>
   (trim s \<noteq> [] \<longrightarrow>
      length (tasks (edit i s st)) = length (tasks st) \<and>
      (\<forall>k < length (tasks st).
         id_t (tasks (edit i s st) ! k) = id_t (tasks st ! k) \<and>
         completed (tasks (edit i s st) ! k) = completed (tasks st ! k) \<and>
         createdAt (tasks (edit i s st) ! k) = createdAt (tasks st ! k) \<and>
         (id_t (tasks st ! k) = i \<longrightarrow> text_t (tasks (edit i s st) ! k) = trim s) \<and>
         (id_t (tasks st ! k) \<noteq> i \<longrightarrow> tasks (edit i s st) ! k = tasks st ! k)))"
  by (simp add: edit_def saveEdit_def Let_def)

theorem edit_replaces_text_only_witness:
  "trim (js ''   '') = [] \<and>
   tasks (edit (js ''1'') (js ''   '') example_state) = [example_task, example_done] \<and>
   trim (js '' Buy bread '') = js ''Buy bread'' \<and>
   length (tasks (edit (js ''1'') (js '' Buy bread '') example_state)) = 2 \<and>
   id_t (tasks (edit (js ''1'') (js '' Buy bread '') example_state) ! 0) = js ''1'' \<and>
   text_t (tasks (edit (js ''1'') (js '' Buy bread '') example_state) ! 0) = js ''Buy bread'' \<and>
   completed (tasks (edit (js ''1'') (js '' Buy bread '') example_state) ! 0) = False \<and>
   tasks (edit (js ''1'') (js '' Buy bread '') example_state) ! 1 = example_done"
proof -
  note ts = example_tasks
  have ids: "id_t example_task = js ''1''" "id_t example_done \<noteq> js ''1''"
    by (simp_all add: example_task_def example_done_def js_def)
  have ne: "js ''Buy bread'' \<noteq> []" by (simp add: js_def)
  from edit_replaces_text_only [of "js ''   ''" "js ''1''" example_state]
  have a: "tasks (edit (js ''1'') (js ''   '') example_state) = [example_task, example_done]"
    by (simp add: trim_examples ts)
  from edit_replaces_text_only [of "js '' Buy bread ''" "js ''1''" example_state]
  have b: "length (tasks (edit (js ''1'') (js '' Buy bread '') example_state)) = 2 \<and>
      (\<forall>k < 2.
         id_t (tasks (edit (js ''1'') (js '' Buy bread '') example_state) ! k) = id_t ([example_task, example_done] ! k) \<and>
         completed (tasks (edit (js ''1'') (js '' Buy bread '') example_state) ! k) = completed ([example_task, example_done] ! k) \<and>
         createdAt (tasks (edit (js ''1'') (js '' Buy bread '') example_state) ! k) = createdAt ([example_task, example_done] ! k) \<and>
         (id_t ([example_task, example_done] ! k) = js ''1'' \<longrightarrow> text_t (tasks (edit (js ''1'') (js '' Buy bread '') example_state) ! k) = js ''Buy bread'') \<and>
         (id_t ([example_task, example_done] ! k) \<noteq> js ''1'' \<longrightarrow> tasks (edit (js ''1'') (js '' Buy bread '') example_state) ! k = [example_task, example_done] ! k))"
    by (simp add: trim_examples ts ne)
  from b have b0: "id_t (tasks (edit (js ''1'') (js '' Buy bread '') example_state) ! 0) = js ''1'' \<and>
      text_t (tasks (edit (js ''1'') (js '' Buy bread '') example_state) ! 0) = js ''Buy bread'' \<and>
      completed (tasks (edit (js ''1'') (js '' Buy bread '') example_state) ! 0) = False"
    using ids by (auto simp: example_task_def)
  from b have b1: "tasks (edit (js ''1'') (js '' Buy bread '') example_state) ! 1 = example_done"
    using ids by auto
  from a b b0 b1 show ?thesis by (simp add: trim_examples)
qed

section \<open>Properties of the derived view\<close>

text \<open>
  C2 (as amended). For every list, status filter \<open>f\<close> among \<open>all\<close>, \<open>active\<close>, \<open>done\<close> and
  query \<open>q\<close>: the view is the list filtered by the conjunction of the status filter and
  of "the lower-cased text contains the lower-cased \<^emph>\<open>trimmed\<close> query"; so a task of the
  list is in the view if and only if it passes both, the view is a subsequence of the
  list (relative order kept), and a blank query leaves the status filter alone (given
  that lower-casing the empty string gives the empty string).
\<close>

theorem filtered_conjunctive:
  assumes "f = js ''all'' \<or> f = js ''active'' \<or> f = js ''done''"
  shows "filtered lc ts f q =
           filter (\<lambda>t. passes_status f t \<and> contains_ci lc (text_t t) (trim q)) ts \<and>
         (\<forall>t. t \<in> set (filtered lc ts f q) \<longleftrightarrow>
               t \<in> set ts \<and> passes_status f t \<and> contains_ci lc (text_t t) (trim q)) \<and>
         subseq (filtered lc ts f q) ts \<and>
         (blank q \<and> lc [] = [] \<longrightarrow> filtered lc ts f q = filter (passes_status f) ts)"
proof -
  have status: "(if f = js ''all'' then True else if f = js ''active'' then \<not> completed t
                 else completed t) = passes_status f t" for t
    using assms status_literals by (auto simp: passes_status_def)
  have eq: "filtered lc ts f q =
           filter (\<lambda>t. passes_status f t \<and> contains_ci lc (text_t t) (trim q)) ts"
    by (simp add: filtered_def status includes_js_contains_ci conj_commute)
  have empty: "contains_ci lc s []" if "lc [] = []" for s
    unfolding contains_ci_def using that
    by (intro exI [of _ "[]"] exI [of _ "lc s"]) simp
  have "filtered lc ts f q = filter (passes_status f) ts" if "blank q" "lc [] = []"
    using that trim_Nil_iff [of q] by (simp add: eq empty)
  with eq show ?thesis by auto
qed

theorem filtered_conjunctive_witness:
  "(js ''done'' = js ''all'' \<or> js ''done'' = js ''active'' \<or> js ''done'' = js ''done'') \<and>
   filtered toLowerCase_ascii [example_task, example_done] (js ''done'') (js ''  '')
     = filter (passes_status (js ''done'')) [example_task, example_done] \<and>
   filtered toLowerCase_ascii [example_task, example_done] (js ''done'') (js ''  '') = [example_done] \<and>
   subseq (filtered toLowerCase_ascii [example_task, example_done] (js ''all'') (js ''milk ''))
     [example_task, example_done] \<and>
   filtered toLowerCase_ascii [example_task, example_done] (js ''all'') (js ''milk '') = [example_task]"
proof -
  have lower_Nil: "toLowerCase_ascii [] = []" by (simp add: toLowerCase_ascii_def)
  have f_done: "js ''done'' = js ''all'' \<or> js ''done'' = js ''active'' \<or> js ''done'' = js ''done''"
    by simp
  have f_all: "js ''all'' = js ''all'' \<or> js ''all'' = js ''active'' \<or> js ''all'' = js ''done''"
    by simp
  have status: "\<not> passes_status (js ''done'') example_task" "passes_status (js ''done'') example_done"
    using status_literals by (auto simp: passes_status_def example_task_def example_done_def)
  have a: "filtered toLowerCase_ascii [example_task, example_done] (js ''done'') (js ''  '')
     = filter (passes_status (js ''done'')) [example_task, example_done]"
    using filtered_conjunctive [OF f_done, of toLowerCase_ascii "[example_task, example_done]" "js ''  ''"]
      blank_spaces(1) lower_Nil by blast
  have b: "subseq (filtered toLowerCase_ascii [example_task, example_done] (js ''all'') (js ''milk ''))
     [example_task, example_done]"
    using filtered_conjunctive [OF f_all, of toLowerCase_ascii "[example_task, example_done]" "js ''milk ''"]
    by blast
  have c: "filtered toLowerCase_ascii [example_task, example_done] (js ''all'') (js ''milk '') = [example_task]"
    by (simp add: filtered_def example_task_def example_done_def string_eval)
  from a b c status f_done show ?thesis by simp
qed

text \<open>
  The claim as stated matches the text against \<open>q\<close> itself. The code trims the query
  first: the query \<open>"milk "\<close> (with a trailing space) shows the task \<open>"Buy milk"\<close>,
  although the lower-cased text does not contain the lower-cased query.
\<close>

theorem filtered_untrimmed_query_counterexample:
  "example_task \<in> set (filtered toLowerCase_ascii [example_task, example_done] (js ''all'') (js ''milk '')) \<and>
   \<not> contains_ci toLowerCase_ascii (text_t example_task) (js ''milk '')"
proof -
  have "includes_js (toLowerCase_ascii (js ''Buy milk'')) (toLowerCase_ascii (js ''milk''))"
    by (simp add: toLowerCase_ascii_def js_def)
  moreover have "\<not> includes_js (toLowerCase_ascii (js ''Buy milk'')) (toLowerCase_ascii (js ''milk ''))"
    by (simp add: toLowerCase_ascii_def js_def)
  ultimately show ?thesis
    by (simp add: filtered_def example_task_def trim_examples flip: includes_js_contains_ci)
qed


text \<open>
  C10. The search query is trimmed before matching: for every list, status filter and
  query \<open>q\<close>, the view for \<open>trim q\<close> is the view for \<open>q\<close>; and padding a query with blank
  strings on either side never changes the view.
\<close>

theorem filtered_query_trimmed:
  "filtered lc ts f (trim q) = filtered lc ts f q \<and>
   (blank l \<and> blank r \<longrightarrow> filtered lc ts f (l @ q @ r) = filtered lc ts f q)"
  by (simp add: filtered_def trim_idem trim_padded)

theorem filtered_query_trimmed_witness:
  "blank (js ''  '') \<and> blank (js '' '') \<and>
   filtered toLowerCase_ascii [example_task, example_done] (js ''all'') (trim (js ''milk ''))
     = filtered toLowerCase_ascii [example_task, example_done] (js ''all'') (js ''milk '') \<and>
   filtered toLowerCase_ascii [example_task, example_done] (js ''all'') (js ''  '' @ js ''MILK'' @ js '' '')
     = filtered toLowerCase_ascii [example_task, example_done] (js ''all'') (js ''MILK'')"
  using blank_spaces
    filtered_query_trimmed [of toLowerCase_ascii "[example_task, example_done]" "js ''all''"
      "js ''milk ''" "js ''  ''" "js '' ''"]
    filtered_query_trimmed [of toLowerCase_ascii "[example_task, example_done]" "js ''all''"
      "js ''MILK''" "js ''  ''" "js '' ''"]
  by simp

section \<open>The invariant of the task store\<close>

lemma store_invariant_map:
  assumes inv: "store_invariant ts"
    and ids: "\<And>t. id_t (f t) = id_t t"
    and texts: "\<And>t. text_t (f t) = text_t t \<or> (text_t (f t) \<noteq> [] \<and> \<not> blank (text_t (f t)))"
  shows "store_invariant (map f ts)"
proof -
  have "id_t \<circ> f = id_t" using ids by (simp add: fun_eq_iff)
  then have "distinct (map id_t (map f ts))"
    using inv by (simp add: store_invariant_def)
  moreover have "text_t (f t) \<noteq> [] \<and> \<not> blank (text_t (f t))" if "t \<in> set ts" for t
    using that inv texts [of t] by (auto simp: store_invariant_def list_all_iff)
  ultimately show ?thesis by (simp add: store_invariant_def list_all_iff)
qed

lemma store_invariant_filter: "store_invariant ts \<Longrightarrow> store_invariant (filter P ts)"
  by (simp add: store_invariant_def list_all_iff distinct_map_filter)

lemma step_preserves_invariant:
  assumes "store_invariant (tasks st)" and "generated_fresh x st"
  shows "store_invariant (tasks (step x st))"
proof (cases x)
  case (Add s now_id rnd now_created)
  show ?thesis
  proof (cases "trim s = []")
    case True
    with assms(1) Add show ?thesis by (simp add: add_def addTask_def)
  next
    case False
    with assms(2) Add have "new_id now_id rnd \<notin> set (map id_t (tasks st))" by simp
    with False assms(1) Add show ?thesis
      by (simp add: add_def addTask_def Let_def store_invariant_def trim_not_blank)
  qed
next
  case (Toggle i)
  have "store_invariant (map (\<lambda>t. if id_t t = i then t\<lparr>completed := \<not> completed t\<rparr> else t) (tasks st))"
    using assms(1) by (rule store_invariant_map) simp_all
  with Toggle show ?thesis by (simp add: toggleTask_def)
next
  case (Edit i s)
  show ?thesis
  proof (cases "trim s = []")
    case True
    with assms(1) Edit show ?thesis by (simp add: edit_def saveEdit_def)
  next
    case False
    have "store_invariant (map (\<lambda>t. if id_t t = i then t\<lparr>text_t := trim s\<rparr> else t) (tasks st))"
      using assms(1) by (rule store_invariant_map) (simp_all add: False trim_not_blank)
    with False Edit show ?thesis by (simp add: edit_def saveEdit_def Let_def)
  qed
next
  case (Delete i)
  with assms(1) show ?thesis
    by (simp add: deleteTask_def store_invariant_filter)
next
  case ClearCompleted
  with assms(1) show ?thesis
    by (simp add: clearCompleted_def store_invariant_filter)
qed

lemma run_preserves_invariant:
  "store_invariant (tasks st) \<Longrightarrow> fresh_ids ops st \<Longrightarrow> store_invariant (tasks (run ops st))"
proof (induction ops arbitrary: st)
  case Nil
  then show ?case by simp
next
  case (Cons x ops)
  from Cons.prems have "store_invariant (tasks (step x st))"
    by (simp add: step_preserves_invariant)
  moreover from Cons.prems have "fresh_ids ops (step x st)" by simp
  ultimately show ?case by (simp add: Cons.IH)
qed

text \<open>
  C4. Starting from the empty list, after any finite sequence of add, toggle, edit,
  delete and clear-completed operations along which the generator hands out fresh ids,
  every task of the list has a text that is neither empty nor blank, and no two tasks
  of the list share an id.
\<close>

theorem store_invariant_from_empty:
  assumes "fresh_ids ops initial"
  shows "(\<forall>t \<in> set (tasks (run ops initial)). text_t t \<noteq> [] \<and> \<not> blank (text_t t)) \<and>
         distinct (map id_t (tasks (run ops initial)))"
proof -
  have "store_invariant (tasks initial)"
    by (simp add: store_invariant_def initial_def)
  then have "store_invariant (tasks (run ops initial))"
    using assms by (rule run_preserves_invariant)
  then show ?thesis by (simp add: store_invariant_def list_all_iff)
qed

lemma example_run:
  "tasks (run example_ops initial) =
     [\<lparr>id_t = js ''1700000000000_k3x9qz'', text_t = js ''Buy bread'', completed = False,
       createdAt = 1700000000000\<rparr>]"
  "fresh_ids example_ops initial"
  by (simp_all add: example_ops_def initial_def add_def addTask_def toggleTask_def edit_def
      saveEdit_def deleteTask_def clearCompleted_def Let_def new_id_def Number_toString_def
      nat_digits.simps trim_def trimStart_def trimEnd_def isTrimmable_def isWhiteSpace_def
      isLineTerminator_def js_def)

theorem store_invariant_from_empty_witness:
  "fresh_ids example_ops initial \<and>
   tasks (run example_ops initial) =
     [\<lparr>id_t = js ''1700000000000_k3x9qz'', text_t = js ''Buy bread'', completed = False,
       createdAt = 1700000000000\<rparr>] \<and>
   list_all (\<lambda>t. text_t t \<noteq> [] \<and> \<not> blank (text_t t)) (tasks (run example_ops initial)) \<and>
   distinct (map id_t (tasks (run example_ops initial)))"
  using store_invariant_from_empty [OF example_run(2)] example_run
  by (simp add: list_all_iff)

section \<open>The depth bound of JSON.parse\<close>

text \<open>
  Every parser consumes input, more fuel never changes a result, and a parse that
  succeeds with some bound succeeds with the bound computed from the length of the input.
\<close>


lemma skip_ws_length: "length (skip_ws s) \<le> length s"
  by (simp add: skip_ws_def length_dropWhile_le)

lemma skip_ws_Cons: "skip_ws s = c # cs \<Longrightarrow> length cs < length s"
  using skip_ws_length [of s] by simp

lemma cons_result_Some:
  "cons_result x r = Some (ys, rest) \<longleftrightarrow> (\<exists>xs. r = Some (xs, rest) \<and> ys = x # xs)"
  by (cases r) (auto simp: cons_result_def)

lemma parse_chars_length: "parse_chars s = Some (k, r) \<Longrightarrow> length r < length s"
proof (induction "length s" arbitrary: s k rule: less_induct)
  case less
  show ?case
  proof (cases s)
    case Nil
    with less.prems show ?thesis by simp
  next
    case (Cons c cs)
    have IH: "length r < length s'" if "parse_chars s' = Some (k', r)" "length s' < length s"
      for s' k'
      using less.hyps that by blast
    consider (quote) "c = 0x22" | (esc) "c \<noteq> 0x22" "c = 0x5C" | (lit) "c \<noteq> 0x22" "c \<noteq> 0x5C"
      by blast
    then show ?thesis
    proof cases
      case quote
      with less.prems Cons show ?thesis by simp
    next
      case lit
      with less.prems Cons obtain xs where "parse_chars cs = Some (xs, r)"
        by (auto simp: cons_result_Some split: if_splits)
      then have "length r < length cs" using Cons by (intro IH) auto
      with Cons show ?thesis by simp
    next
      case esc
      with less.prems Cons obtain e r1 where r1: "cs = e # r1"
        by (cases cs) auto
      show ?thesis
      proof (cases "e = 0x75")
        case True
        with less.prems Cons esc r1 obtain h1 h2 h3 h4 r2 xs
          where "r1 = h1 # h2 # h3 # h4 # r2" "parse_chars r2 = Some (xs, r)"
          by (auto simp: cons_result_Some split: list.splits option.splits)
        moreover from this have "length r < length r2" using Cons r1 by (intro IH) auto
        ultimately show ?thesis using Cons r1 by simp
      next
        case False
        with less.prems Cons esc r1 obtain xs where "parse_chars r1 = Some (xs, r)"
          by (auto simp: cons_result_Some split: option.splits)
        then have "length r < length r1" using Cons r1 by (intro IH) auto
        with Cons r1 show ?thesis by simp
      qed
    qed
  qed
qed

lemma parse_fraction_length: "parse_fraction s = Some (x, r) \<Longrightarrow> length r \<le> length s"
  by (auto simp: parse_fraction_def Let_def split: list.splits if_splits
      intro: le_SucI length_dropWhile_le)

lemma parse_exponent_length: "parse_exponent s = Some (x, r) \<Longrightarrow> length r \<le> length s"
  by (auto simp: parse_exponent_def Let_def split: list.splits if_splits prod.splits
      intro: le_SucI length_dropWhile_le order_trans [OF length_dropWhile_le])

lemma dropWhile_shorter: "takeWhile P xs \<noteq> [] \<Longrightarrow> length (dropWhile P xs) < length xs"
  by (cases xs) (auto split: if_splits intro: le_imp_less_Suc length_dropWhile_le)

lemma parse_number_length:
  assumes "parse_number s = Some (x, r)"
  shows "length r < length s"
proof -
  define s1 where "s1 = (case s of [] \<Rightarrow> s | c # cs \<Rightarrow> if c = 0x2D then cs else s)"
  have s1: "length s1 \<le> length s" by (auto simp: s1_def split: list.splits)
  have start: "(case s of [] \<Rightarrow> (False, s) | c # cs \<Rightarrow> if c = 0x2D then (True, cs) else (False, s))
      = ((case s of [] \<Rightarrow> False | c # cs \<Rightarrow> c = 0x2D), s1)"
    by (auto simp: s1_def split: list.splits)
  from assms obtain fr s2 ex where
    ip: "takeWhile isDigit s1 \<noteq> []" and
    fr: "parse_fraction (dropWhile isDigit s1) = Some (fr, s2)" and
    ex: "parse_exponent s2 = Some (ex, r)"
    unfolding parse_number_def start
    by (auto simp: Let_def split: if_splits option.splits)
  from ip have "length (dropWhile isDigit s1) < length s1" by (rule dropWhile_shorter)
  with parse_fraction_length [OF fr] parse_exponent_length [OF ex] s1 show ?thesis by simp
qed


lemma drop_literal_length: "length (drop k (c # cs)) \<le> Suc (length cs)"
  by simp

lemma parse_lengths:
  "(\<forall>s v r. parse_value n s = Some (v, r) \<longrightarrow> length r < length s) \<and>
   (\<forall>s vs r. parse_elements n s = Some (vs, r) \<longrightarrow> length r < length s) \<and>
   (\<forall>s ms r. parse_members n s = Some (ms, r) \<longrightarrow> length r < length s)"
proof (induction n)
  case 0
  show ?case by simp
next
  case (Suc n)
  note IHv = Suc.IH [THEN conjunct1, rule_format]
    and IHe = Suc.IH [THEN conjunct2, THEN conjunct1, rule_format]
    and IHm = Suc.IH [THEN conjunct2, THEN conjunct2, rule_format]
  have V: "length r < length s" if "parse_value (Suc n) s = Some (v, r)" for s v r
  proof -
    from that obtain c cs where c: "skip_ws s = c # cs"
      by (cases "skip_ws s") auto
    then have len: "length cs < length s" by (rule skip_ws_Cons)
    consider (obj) "c = 0x7B" | (arr) "c \<noteq> 0x7B" "c = 0x5B" | (str) "c \<noteq> 0x7B" "c \<noteq> 0x5B" "c = 0x22"
      | (other) "c \<noteq> 0x7B" "c \<noteq> 0x5B" "c \<noteq> 0x22"
      by blast
    then show ?thesis
    proof cases
      case obj
      with that c obtain d ds where d: "skip_ws cs = d # ds"
        by (cases "skip_ws cs") auto
      then have "length ds < length cs" by (rule skip_ws_Cons)
      moreover have "length r < length (d # ds)" if "d \<noteq> 0x7D"
        using \<open>parse_value (Suc n) s = Some (v, r)\<close> c obj d that by (auto dest: IHm)
      moreover have "r = ds" if "d = 0x7D"
        using \<open>parse_value (Suc n) s = Some (v, r)\<close> c obj d that by auto
      ultimately show ?thesis using len by (cases "d = 0x7D") auto
    next
      case arr
      with that c obtain d ds where d: "skip_ws cs = d # ds"
        by (cases "skip_ws cs") auto
      then have "length ds < length cs" by (rule skip_ws_Cons)
      moreover have "length r < length (d # ds)" if "d \<noteq> 0x5D"
        using \<open>parse_value (Suc n) s = Some (v, r)\<close> c arr d that by (auto dest: IHe)
      moreover have "r = ds" if "d = 0x5D"
        using \<open>parse_value (Suc n) s = Some (v, r)\<close> c arr d that by auto
      ultimately show ?thesis using len by (cases "d = 0x5D") auto
    next
      case str
      with that c have "length r < length cs" by (auto dest: parse_chars_length)
      with len show ?thesis by simp
    next
      case other
      with that c have "length r \<le> length cs \<or> length r < length (c # cs)"
        by (auto split: if_splits dest: parse_number_length)
      with len show ?thesis by auto
    qed
  qed
  have E: "length r < length s" if "parse_elements (Suc n) s = Some (vs, r)" for s vs r
  proof -
    from that obtain v r1 where v: "parse_value n s = Some (v, r1)"
      by (cases "parse_value n s") auto
    then have r1: "length r1 < length s" by (rule IHv)
    from that v obtain c cs where c: "skip_ws r1 = c # cs"
      by (cases "skip_ws r1") auto
    then have len: "length cs < length r1" by (rule skip_ws_Cons)
    from that v c have "r = cs \<or> (\<exists>vs'. parse_elements n cs = Some (vs', r))"
      by (auto simp: cons_result_Some split: if_splits)
    then have "length r \<le> length cs" by (auto dest: IHe)
    with len r1 show ?thesis by simp
  qed
  have M: "length r < length s" if "parse_members (Suc n) s = Some (ms, r)" for s ms r
  proof -
    from that obtain q cs where q: "skip_ws s = q # cs" "q = 0x22"
      by (cases "skip_ws s") (auto split: if_splits)
    then have l0: "length cs < length s" by (auto dest: skip_ws_Cons)
    from that q obtain k r1 where k: "parse_chars cs = Some (k, r1)"
      by (cases "parse_chars cs") auto
    then have l1: "length r1 < length cs" by (rule parse_chars_length)
    from that q k obtain d ds where d: "skip_ws r1 = d # ds" "d = 0x3A"
      by (cases "skip_ws r1") (auto split: if_splits)
    then have l2: "length ds < length r1" by (auto dest: skip_ws_Cons)
    from that q k d obtain v r2 where v: "parse_value n ds = Some (v, r2)"
      by (cases "parse_value n ds") auto
    then have l3: "length r2 < length ds" by (rule IHv)
    from that q k d v obtain e es where e: "skip_ws r2 = e # es"
      by (cases "skip_ws r2") auto
    then have l4: "length es < length r2" by (rule skip_ws_Cons)
    from that q k d v e have "r = es \<or> (\<exists>ms'. parse_members n es = Some (ms', r))"
      by (auto simp: cons_result_Some split: if_splits)
    then have "length r \<le> length es" by (auto dest: IHm)
    with l0 l1 l2 l3 l4 show ?thesis by simp
  qed
  from V E M show ?case by blast
qed


lemma parse_cases_value:
  assumes "parse_value (Suc n) s = Some x"
  obtains (empty_object) c cs d ds where "skip_ws s = c # cs" "c = 0x7B" "skip_ws cs = d # ds"
      "d = 0x7D" "x = (JObj [], ds)"
    | (object) c cs d ds ms r where "skip_ws s = c # cs" "c = 0x7B" "skip_ws cs = d # ds"
      "d \<noteq> 0x7D" "parse_members n (d # ds) = Some (ms, r)" "x = (make_object ms, r)"
    | (empty_array) c cs d ds where "skip_ws s = c # cs" "c \<noteq> 0x7B" "c = 0x5B"
      "skip_ws cs = d # ds" "d = 0x5D" "x = (JArr [], ds)"
    | (array) c cs d ds vs r where "skip_ws s = c # cs" "c \<noteq> 0x7B" "c = 0x5B"
      "skip_ws cs = d # ds" "d \<noteq> 0x5D" "parse_elements n (d # ds) = Some (vs, r)" "x = (JArr vs, r)"
    | (scalar) c cs where "skip_ws s = c # cs" "c \<noteq> 0x7B" "c \<noteq> 0x5B"
proof -
  from assms obtain c cs where c: "skip_ws s = c # cs"
    by (cases "skip_ws s") auto
  consider (obj) "c = 0x7B" | (arr) "c \<noteq> 0x7B" "c = 0x5B" | (other) "c \<noteq> 0x7B" "c \<noteq> 0x5B"
    by blast
  then show ?thesis
  proof cases
    case obj
    with assms c obtain d ds where d: "skip_ws cs = d # ds"
      by (cases "skip_ws cs") auto
    show ?thesis
    proof (cases "d = 0x7D")
      case True
      with assms c obj d have "x = (JObj [], ds)" by auto
      with c obj d True show ?thesis by (rule empty_object)
    next
      case False
      with assms c obj d obtain ms r where "parse_members n (d # ds) = Some (ms, r)"
        "x = (make_object ms, r)"
        by auto
      with c obj d False show ?thesis by (rule object)
    qed
  next
    case arr
    with assms c obtain d ds where d: "skip_ws cs = d # ds"
      by (cases "skip_ws cs") auto
    show ?thesis
    proof (cases "d = 0x5D")
      case True
      with assms c arr d have "x = (JArr [], ds)" by auto
      with c arr d True show ?thesis by (rule empty_array)
    next
      case False
      with assms c arr d obtain vs r where "parse_elements n (d # ds) = Some (vs, r)"
        "x = (JArr vs, r)"
        by auto
      with c arr d False show ?thesis by (rule array)
    qed
  next
    case other
    with c show ?thesis by (rule scalar)
  qed
qed

lemma parse_value_scalar:
  assumes "skip_ws s = c # cs" "c \<noteq> 0x7B" "c \<noteq> 0x5B"
  shows "parse_value (Suc n) s = parse_value (Suc m) s"
  using assms by simp

lemma parse_cases_elements:
  assumes "parse_elements (Suc n) s = Some x"
  obtains (last) v r1 c cs where "parse_value n s = Some (v, r1)" "skip_ws r1 = c # cs"
      "c = 0x5D" "x = ([v], cs)"
    | (more) v r1 c cs vs r where "parse_value n s = Some (v, r1)" "skip_ws r1 = c # cs"
      "c \<noteq> 0x5D" "c = 0x2C" "parse_elements n cs = Some (vs, r)" "x = (v # vs, r)"
proof -
  from assms obtain v r1 where v: "parse_value n s = Some (v, r1)"
    by (cases "parse_value n s") auto
  from assms v obtain c cs where c: "skip_ws r1 = c # cs"
    by (cases "skip_ws r1") auto
  show ?thesis
  proof (cases "c = 0x5D")
    case True
    with assms v c have "x = ([v], cs)" by auto
    with v c True show ?thesis by (rule last)
  next
    case False
    with assms v c obtain vs r where "c = 0x2C" "parse_elements n cs = Some (vs, r)"
      "x = (v # vs, r)"
      by (cases x) (auto simp: cons_result_Some split: if_splits)
    with v c False show ?thesis by (rule more)
  qed
qed

lemma parse_cases_members:
  assumes "parse_members (Suc n) s = Some x"
  obtains (last) q cs k r1 d ds v r2 e es where "skip_ws s = q # cs" "q = 0x22"
      "parse_chars cs = Some (k, r1)" "skip_ws r1 = d # ds" "d = 0x3A"
      "parse_value n ds = Some (v, r2)" "skip_ws r2 = e # es" "e = 0x7D" "x = ([(k, v)], es)"
    | (more) q cs k r1 d ds v r2 e es ms r where "skip_ws s = q # cs" "q = 0x22"
      "parse_chars cs = Some (k, r1)" "skip_ws r1 = d # ds" "d = 0x3A"
      "parse_value n ds = Some (v, r2)" "skip_ws r2 = e # es" "e \<noteq> 0x7D" "e = 0x2C"
      "parse_members n es = Some (ms, r)" "x = ((k, v) # ms, r)"
proof -
  from assms obtain q cs where q: "skip_ws s = q # cs" "q = 0x22"
    by (cases "skip_ws s") (auto split: if_splits)
  from assms q obtain k r1 where k: "parse_chars cs = Some (k, r1)"
    by (cases "parse_chars cs") auto
  from assms q k obtain d ds where d: "skip_ws r1 = d # ds" "d = 0x3A"
    by (cases "skip_ws r1") (auto split: if_splits)
  from assms q k d obtain v r2 where v: "parse_value n ds = Some (v, r2)"
    by (cases "parse_value n ds") auto
  from assms q k d v obtain e es where e: "skip_ws r2 = e # es"
    by (cases "skip_ws r2") auto
  show ?thesis
  proof (cases "e = 0x7D")
    case True
    with assms q k d v e have "x = ([(k, v)], es)" by auto
    with q k d v e True show ?thesis by (rule last)
  next
    case False
    with assms q k d v e obtain ms r where "e = 0x2C" "parse_members n es = Some (ms, r)"
      "x = ((k, v) # ms, r)"
      by (cases x) (auto simp: cons_result_Some split: if_splits)
    with q k d v e False show ?thesis by (rule more)
  qed
qed

lemma parse_fuel_Suc:
  "(\<forall>s x. parse_value n s = Some x \<longrightarrow> parse_value (Suc n) s = Some x) \<and>
   (\<forall>s x. parse_elements n s = Some x \<longrightarrow> parse_elements (Suc n) s = Some x) \<and>
   (\<forall>s x. parse_members n s = Some x \<longrightarrow> parse_members (Suc n) s = Some x)"
proof (induction n)
  case 0
  show ?case by simp
next
  case (Suc n)
  note IHv = Suc.IH [THEN conjunct1, rule_format]
    and IHe = Suc.IH [THEN conjunct2, THEN conjunct1, rule_format]
    and IHm = Suc.IH [THEN conjunct2, THEN conjunct2, rule_format]
  have V: "parse_value (Suc (Suc n)) s = Some x" if "parse_value (Suc n) s = Some x" for s x
    using that
  proof (cases rule: parse_cases_value)
    case (object c cs d ds ms r)
    from IHm [OF object(5)] object show ?thesis by simp
  next
    case (array c cs d ds vs r)
    from IHe [OF array(6)] array show ?thesis by simp
  next
    case (scalar c cs)
    then have "parse_value (Suc (Suc n)) s = parse_value (Suc n) s" by (rule parse_value_scalar)
    with that show ?thesis by simp
  qed simp_all
  have E: "parse_elements (Suc (Suc n)) s = Some x" if "parse_elements (Suc n) s = Some x" for s x
    using that
  proof (cases rule: parse_cases_elements)
    case (last v r1 c cs)
    from IHv [OF last(1)] last show ?thesis
      by (subst parse_elements.simps) (simp del: parse_value.simps)
  next
    case (more v r1 c cs vs r)
    from IHv [OF more(1)] IHe [OF more(5)] more show ?thesis
      by (subst parse_elements.simps)
        (simp add: cons_result_def del: parse_value.simps parse_elements.simps)
  qed
  have M: "parse_members (Suc (Suc n)) s = Some x" if "parse_members (Suc n) s = Some x" for s x
    using that
  proof (cases rule: parse_cases_members)
    case (last q cs k r1 d ds v r2 e es)
    from IHv [OF last(6)] last show ?thesis
      by (subst parse_members.simps) (simp del: parse_value.simps)
  next
    case (more q cs k r1 d ds v r2 e es ms r)
    from IHv [OF more(6)] IHm [OF more(10)] more show ?thesis
      by (subst parse_members.simps)
        (simp add: cons_result_def del: parse_value.simps parse_members.simps)
  qed
  from V E M show ?case by blast
qed

lemma parse_fuel_mono:
  assumes "n \<le> m"
  shows "parse_value n s = Some x \<Longrightarrow> parse_value m s = Some x"
    and "parse_elements n s = Some y \<Longrightarrow> parse_elements m s = Some y"
    and "parse_members n s = Some z \<Longrightarrow> parse_members m s = Some z"
  using assms by (induction rule: dec_induct) (simp_all add: parse_fuel_Suc del: parse_value.simps parse_elements.simps parse_members.simps)


lemma parse_fuel_bound:
  "(\<forall>s x. parse_value n s = Some x \<longrightarrow> parse_value (2 * length s + 1) s = Some x) \<and>
   (\<forall>s x. parse_elements n s = Some x \<longrightarrow> parse_elements (2 * length s + 2) s = Some x) \<and>
   (\<forall>s x. parse_members n s = Some x \<longrightarrow> parse_members (2 * length s + 2) s = Some x)"
proof (induction n)
  case 0
  show ?case by simp
next
  case (Suc n)
  note IHv = Suc.IH [THEN conjunct1, rule_format]
    and IHe = Suc.IH [THEN conjunct2, THEN conjunct1, rule_format]
    and IHm = Suc.IH [THEN conjunct2, THEN conjunct2, rule_format]
  note len_v = parse_lengths [THEN conjunct1, rule_format]
  have V: "parse_value (2 * length s + 1) s = Some x" if "parse_value (Suc n) s = Some x" for s x
    using that
  proof (cases rule: parse_cases_value)
    case (object c cs d ds ms r)
    from object(1,3) have "2 * length (d # ds) + 2 \<le> 2 * length s"
      using skip_ws_Cons [of s c cs] skip_ws_length [of cs] by simp
    with IHm [OF object(5)] have "parse_members (2 * length s) (d # ds) = Some (ms, r)"
      by (rule parse_fuel_mono(3) [rotated])
    with object show ?thesis by simp
  next
    case (array c cs d ds vs r)
    from array(1,4) have "2 * length (d # ds) + 2 \<le> 2 * length s"
      using skip_ws_Cons [of s c cs] skip_ws_length [of cs] by simp
    with IHe [OF array(6)] have "parse_elements (2 * length s) (d # ds) = Some (vs, r)"
      by (rule parse_fuel_mono(2) [rotated])
    with array show ?thesis by simp
  next
    case (scalar c cs)
    then have "parse_value (Suc (2 * length s)) s = parse_value (Suc n) s"
      by (rule parse_value_scalar)
    with that show ?thesis by simp
  qed simp_all
  have E: "parse_elements (2 * length s + 2) s = Some x" if "parse_elements (Suc n) s = Some x"
    for s x
    using that
  proof (cases rule: parse_cases_elements)
    case (last v r1 c cs)
    from IHv [OF last(1)] last show ?thesis
      by (simp del: parse_value.simps)
  next
    case (more v r1 c cs vs r)
    from len_v [OF more(1)] more(2) have "2 * length cs + 2 \<le> 2 * length s + 1"
      using skip_ws_Cons [of r1 c cs] by simp
    with IHe [OF more(5)] have "parse_elements (2 * length s + 1) cs = Some (vs, r)"
      by (rule parse_fuel_mono(2) [rotated])
    with IHv [OF more(1)] more show ?thesis
      by (simp add: cons_result_def del: parse_value.simps parse_elements.simps(2))
        (simp add: cons_result_def del: parse_value.simps)
  qed
  have M: "parse_members (2 * length s + 2) s = Some x" if "parse_members (Suc n) s = Some x"
    for s x
    using that
  proof (cases rule: parse_cases_members)
    case (last q cs k r1 d ds v r2 e es)
    from last(1,3,4) have ds: "length ds < length s"
      using skip_ws_Cons [of s q cs] parse_chars_length [of cs k r1] skip_ws_Cons [of r1 d ds]
      by simp
    then have "2 * length ds + 1 \<le> 2 * length s + 1" by simp
    with IHv [OF last(6)] have "parse_value (2 * length s + 1) ds = Some (v, r2)"
      by (rule parse_fuel_mono(1) [rotated])
    with last show ?thesis
      by (simp del: parse_value.simps)
  next
    case (more q cs k r1 d ds v r2 e es ms r)
    from more(1,3,4) have ds: "length ds < length s"
      using skip_ws_Cons [of s q cs] parse_chars_length [of cs k r1] skip_ws_Cons [of r1 d ds]
      by simp
    then have "2 * length ds + 1 \<le> 2 * length s + 1" by simp
    with IHv [OF more(6)] have v: "parse_value (2 * length s + 1) ds = Some (v, r2)"
      by (rule parse_fuel_mono(1) [rotated])
    from len_v [OF more(6)] more(7) ds have "2 * length es + 2 \<le> 2 * length s + 1"
      using skip_ws_Cons [of r2 e es] by simp
    with IHm [OF more(10)] have "parse_members (2 * length s + 1) es = Some (ms, r)"
      by (rule parse_fuel_mono(3) [rotated])
    with v more show ?thesis
      by (simp add: cons_result_def del: parse_value.simps parse_members.simps(2))
        (simp add: cons_result_def del: parse_value.simps)
  qed
  from V E M show ?case by blast
qed

text \<open>
  The bound \<open>JSON_parse\<close> starts with loses nothing: what any bound parses, it parses.
\<close>

lemma JSON_parse_fuel: "parse_value n s = Some x \<Longrightarrow> parse_value (2 * length s + 1) s = Some x"
  using parse_fuel_bound by blast

lemma JSON_parse_complete:
  assumes "parse_value n s = Some (v, r)" and "skip_ws r = []"
  shows "JSON_parse s = Inr v"
proof -
  from assms(1) have "parse_value (2 * length s + 1) s = Some (v, r)"
    by (rule JSON_parse_fuel)
  with assms(2) show ?thesis
    unfolding JSON_parse_def by (simp only: option.case prod.case refl if_True)
qed

section \<open>Persistence\<close>


lemma lt16_cases:
  "d < 16 \<Longrightarrow> d = 0 \<or> d = 1 \<or> d = 2 \<or> d = 3 \<or> d = 4 \<or> d = 5 \<or> d = 6 \<or> d = 7 \<or> d = 8 \<or> d = 9 \<or>
     d = 10 \<or> d = 11 \<or> d = 12 \<or> d = 13 \<or> d = 14 \<or> d = (15::nat)"
  by arith

lemma hex_value_hex_digit: "d < 16 \<Longrightarrow> hex_value (hex_digit d) = Some d"
  by (drule lt16_cases) (elim disjE; simp add: hex_value_def hex_digit_def)

lemma hex4_UnicodeEscape:
  "hex4 (hex_digit (unat c div 4096)) (hex_digit (unat c div 256 mod 16))
        (hex_digit (unat c div 16 mod 16)) (hex_digit (unat c mod 16)) = Some c"
proof -
  have "unat c < 65536" using unsigned_less [of c, where ?'a = nat] by simp
  then have hi: "unat c div 4096 < 16" by simp
  have "unat c div 4096 = unat c div 256 div 16" "unat c div 256 = unat c div 16 div 16"
    by (simp_all add: div_mult2_eq [symmetric])
  then have "((unat c div 4096 * 16 + unat c div 256 mod 16) * 16 + unat c div 16 mod 16) * 16
          + unat c mod 16 = unat c"
    by (simp only: div_mult_mod_eq)
  with hi show ?thesis
    by (simp add: hex4_def hex_value_hex_digit)
qed

lemma parse_chars_literal:
  "c \<noteq> 0x22 \<Longrightarrow> c \<noteq> 0x5C \<Longrightarrow> \<not> c < 0x20 \<Longrightarrow> parse_chars (c # r) = cons_result c (parse_chars r)"
  by simp

lemma surrogate_literal:
  assumes "isLeadingSurrogate c \<or> isTrailingSurrogate c"
  shows "c \<noteq> 0x22" "c \<noteq> 0x5C" "\<not> c < 0x20"
  using assms by (auto simp: isLeadingSurrogate_def isTrailingSurrogate_def word_le_nat_alt word_less_nat_alt)

lemma parse_chars_quote_unit: "parse_chars (quote_unit c @ r) = cons_result c (parse_chars r)"
proof -
  consider (short) "c = 0x08 \<or> c = 0x09 \<or> c = 0x0A \<or> c = 0x0C \<or> c = 0x0D \<or> c = 0x22 \<or> c = 0x5C"
    | (escaped) "c \<noteq> 0x08" "c \<noteq> 0x09" "c \<noteq> 0x0A" "c \<noteq> 0x0C" "c \<noteq> 0x0D" "c \<noteq> 0x22" "c \<noteq> 0x5C"
        "c < 0x20 \<or> isLeadingSurrogate c \<or> isTrailingSurrogate c"
    | (literal) "c \<noteq> 0x08" "c \<noteq> 0x09" "c \<noteq> 0x0A" "c \<noteq> 0x0C" "c \<noteq> 0x0D" "c \<noteq> 0x22" "c \<noteq> 0x5C"
        "\<not> (c < 0x20 \<or> isLeadingSurrogate c \<or> isTrailingSurrogate c)"
    by blast
  then show ?thesis
  proof cases
    case short
    then show ?thesis
      by (elim disjE) (simp_all add: quote_unit_def unescape_def)
  next
    case escaped
    then have "quote_unit c = UnicodeEscape c" by (simp add: quote_unit_def)
    then show ?thesis by (simp add: UnicodeEscape_def hex4_UnicodeEscape)
  next
    case literal
    then have "quote_unit c = [c]" by (simp add: quote_unit_def)
    moreover from literal have "\<not> c < 0x20" by blast
    ultimately show ?thesis
      using literal(6,7) by (simp add: parse_chars_literal del: parse_chars.simps)
  qed
qed

lemma parse_chars_quote_units: "parse_chars (quote_units s @ 0x22 # r) = Some (s, r)"
proof (induction s rule: quote_units.induct)
  case 1
  show ?case by simp
next
  case (2 c)
  show ?case by (simp add: parse_chars_quote_unit cons_result_def)
next
  case (3 c d cs)
  show ?case
  proof (cases "isLeadingSurrogate c \<and> isTrailingSurrogate d")
    case True
    then have c: "c \<noteq> 0x22" "c \<noteq> 0x5C" "\<not> c < 0x20"
      and d: "d \<noteq> 0x22" "d \<noteq> 0x5C" "\<not> d < 0x20"
      using surrogate_literal [of c] surrogate_literal [of d] by blast+
    have "parse_chars (c # d # quote_units cs @ 0x22 # r)
        = cons_result c (cons_result d (parse_chars (quote_units cs @ 0x22 # r)))"
      by (simp only: parse_chars_literal [OF c] parse_chars_literal [OF d])
    moreover from True have "quote_units (c # d # cs) = c # d # quote_units cs" by simp
    ultimately show ?thesis
      using 3 True by (simp add: cons_result_def del: parse_chars.simps quote_units.simps)
  next
    case False
    then have "quote_units (c # d # cs) = quote_unit c @ quote_units (d # cs)" by auto
    with 3 False show ?thesis
      by (simp add: parse_chars_quote_unit cons_result_def del: parse_chars.simps quote_units.simps)
  qed
qed


lemma digit_unit:
  assumes "d < 10"
  shows "isDigit (0x30 + of_nat d)" and "unat (0x30 + of_nat d :: code_unit) - 48 = d"
    and "(0x30 + of_nat d :: code_unit) = 0x30 \<longleftrightarrow> d = 0"
proof -
  have "unat (of_nat (48 + d) :: code_unit) = (48 + d) mod 2 ^ LENGTH(16)"
    by (rule unat_of_nat)
  with assms have u: "unat (0x30 + of_nat d :: code_unit) = 48 + d"
    by simp
  show "isDigit (0x30 + of_nat d)"
    using assms by (simp add: isDigit_def word_le_nat_alt u)
  show "unat (0x30 + of_nat d :: code_unit) - 48 = d"
    by (simp add: u)
  have "(0x30 + of_nat d :: code_unit) = 0x30 \<longleftrightarrow> unat (0x30 + of_nat d :: code_unit) = unat (0x30 :: code_unit)"
    by (simp only: word_unat_eq_iff)
  then show "(0x30 + of_nat d :: code_unit) = 0x30 \<longleftrightarrow> d = 0"
    by (simp add: u)
qed

lemma nat_digits_nonempty: "nat_digits n \<noteq> []"
  by (subst nat_digits.simps) simp

lemma nat_digits_all_digits: "list_all isDigit (nat_digits n)"
proof (induction n rule: nat_digits.induct)
  case (1 n)
  show ?case
  proof (cases "n < 10")
    case True
    then show ?thesis by (subst nat_digits.simps) (simp add: digit_unit)
  next
    case False
    moreover have "isDigit (0x30 + of_nat (n mod 10))" by (simp add: digit_unit)
    ultimately show ?thesis using 1 by (subst nat_digits.simps) simp
  qed
qed

lemma digits_value_snoc: "digits_value (ds @ [c]) = 10 * digits_value ds + (unat c - 48)"
  by (simp add: digits_value_def)

lemma digits_value_nat_digits: "digits_value (nat_digits n) = n"
proof (induction n rule: nat_digits.induct)
  case (1 n)
  show ?case
  proof (cases "n < 10")
    case True
    then show ?thesis
      by (subst nat_digits.simps) (simp add: digits_value_def digit_unit)
  next
    case False
    moreover have "unat (0x30 + of_nat (n mod 10) :: code_unit) - 48 = n mod 10"
      by (simp add: digit_unit)
    ultimately show ?thesis
      using 1 by (subst nat_digits.simps) (simp add: digits_value_snoc)
  qed
qed

lemma nat_digits_leading_zero: "hd (nat_digits n) = 0x30 \<Longrightarrow> n = 0"
proof (induction n rule: nat_digits.induct)
  case (1 n)
  show ?case
  proof (cases "n < 10")
    case True
    then have "nat_digits n = [0x30 + of_nat n]"
      by (subst nat_digits.simps) simp
    with 1(2) have "(0x30 + of_nat n :: code_unit) = 0x30" by simp
    with True show ?thesis using digit_unit(3) by blast
  next
    case False
    with 1(2) have "hd (nat_digits (n div 10)) = 0x30"
      by (subst (asm) nat_digits.simps) (simp add: nat_digits_nonempty)
    with False 1(1) have "n div 10 = 0" by simp
    with False show ?thesis by simp
  qed
qed

lemma nat_digits_zero: "nat_digits 0 = [0x30]"
  by (subst nat_digits.simps) simp

lemma nat_digits_no_leading_zero: "\<not> (hd (nat_digits n) = 0x30 \<and> 1 < length (nat_digits n))"
  using nat_digits_leading_zero [of n] nat_digits_zero by auto

lemma nat_digits_head: "\<exists>c cs. nat_digits n = c # cs \<and> isDigit c"
  using nat_digits_nonempty [of n] nat_digits_all_digits [of n]
  by (cases "nat_digits n") auto

lemma span_digits:
  assumes "list_all isDigit ds" and "\<not> isDigit c"
  shows "takeWhile isDigit (ds @ c # r) = ds" and "dropWhile isDigit (ds @ c # r) = c # r"
  using assms by (induction ds) auto

lemma parse_nat_digits:
  assumes "\<not> isDigit c" "c \<noteq> 0x2E" "c \<noteq> 0x65" "c \<noteq> 0x45"
  shows "parse_number (nat_digits n @ c # r) = Some (of_nat n, c # r)"
proof -
  obtain d ds where d: "nat_digits n = d # ds" "isDigit d"
    using nat_digits_head by blast
  then have minus: "d \<noteq> 0x2D" by (auto simp: isDigit_def)
  have tw: "takeWhile isDigit (nat_digits n @ c # r) = nat_digits n"
    and dw: "dropWhile isDigit (nat_digits n @ c # r) = c # r"
    using span_digits [OF nat_digits_all_digits assms(1)] by auto
  have start: "(case nat_digits n @ c # r of [] \<Rightarrow> (False, nat_digits n @ c # r)
                | x # xs \<Rightarrow> if x = 0x2D then (True, xs) else (False, nat_digits n @ c # r))
               = (False, nat_digits n @ c # r)"
    using minus by (simp add: d)
  show ?thesis
    unfolding parse_number_def start
    using nat_digits_no_leading_zero [of n] assms
    by (simp add: tw dw nat_digits_nonempty parse_fraction_def parse_exponent_def
        digits_value_nat_digits scale10_def Let_def)
qed

lemma parse_minus_nat_digits:
  assumes "\<not> isDigit c" "c \<noteq> 0x2E" "c \<noteq> 0x65" "c \<noteq> 0x45"
  shows "parse_number (0x2D # nat_digits n @ c # r) = Some (- of_nat n, c # r)"
proof -
  have tw: "takeWhile isDigit (nat_digits n @ c # r) = nat_digits n"
    and dw: "dropWhile isDigit (nat_digits n @ c # r) = c # r"
    using span_digits [OF nat_digits_all_digits assms(1)] by auto
  show ?thesis
    unfolding parse_number_def
    using nat_digits_no_leading_zero [of n] assms
    by (simp add: tw dw nat_digits_nonempty parse_fraction_def parse_exponent_def
        digits_value_nat_digits scale10_def Let_def)
qed

lemma parse_Number_toString:
  assumes "\<not> isDigit c" "c \<noteq> 0x2E" "c \<noteq> 0x65" "c \<noteq> 0x45"
  shows "parse_number (Number_toString i @ c # r) = Some (of_int i, c # r)"
proof (cases "i < 0")
  case True
  then have "Number_toString i @ c # r = 0x2D # nat_digits (nat (- i)) @ c # r"
    by (simp add: Number_toString_def)
  then have "parse_number (Number_toString i @ c # r) = Some (- of_nat (nat (- i)), c # r)"
    by (simp only: parse_minus_nat_digits [OF assms])
  moreover from True have "- of_nat (nat (- i)) = (of_int i :: rat)" by simp
  ultimately show ?thesis by (simp only:)
next
  case False
  then have "Number_toString i @ c # r = nat_digits (nat i) @ c # r"
    by (simp add: Number_toString_def)
  then have "parse_number (Number_toString i @ c # r) = Some (of_nat (nat i), c # r)"
    by (simp only: parse_nat_digits [OF assms])
  moreover from False have "of_nat (nat i) = (of_int i :: rat)" by simp
  ultimately show ?thesis by (simp only:)
qed

lemma Number_toString_head:
  "\<exists>c cs. Number_toString i = c # cs \<and> (isDigit c \<or> c = 0x2D)"
  using nat_digits_head [of "nat i"] by (auto simp: Number_toString_def)


lemma parse_value_string: "parse_value (Suc n) (QuoteJSONString s @ r) = Some (JStr s, r)"
  by (simp add: QuoteJSONString_def skip_ws_def isJSONWhiteSpace_def parse_chars_quote_units
      del: parse_chars.simps)

lemma parse_value_bool:
  "parse_value (Suc n) ((if b then js ''true'' else js ''false'') @ r) = Some (JBool b, r)"
  by (simp add: skip_ws_def isJSONWhiteSpace_def js_def)

lemma parse_value_number:
  assumes "s = c # cs" and "isDigit c \<or> c = 0x2D"
  shows "parse_value (Suc n) s = map_option (\<lambda>(x, r). (JNum x, r)) (parse_number s)"
proof -
  from assms(2) have "\<not> isJSONWhiteSpace c" "c \<noteq> 0x7B" "c \<noteq> 0x5B" "c \<noteq> 0x22"
    "c \<noteq> 0x74" "c \<noteq> 0x66" "c \<noteq> 0x6E"
    by (auto simp: isDigit_def isJSONWhiteSpace_def)
  then show ?thesis
    by (simp add: assms(1) skip_ws_def js_def)
qed

lemma parse_value_int:
  "parse_value (Suc n) (Number_toString i @ 0x7D # r) = Some (JNum (of_int i), 0x7D # r)"
proof -
  obtain c cs where head: "Number_toString i = c # cs" "isDigit c \<or> c = 0x2D"
    using Number_toString_head by blast
  then have "Number_toString i @ 0x7D # r = c # (cs @ 0x7D # r)" by simp
  then have "parse_value (Suc n) (Number_toString i @ 0x7D # r)
      = map_option (\<lambda>(x, r). (JNum x, r)) (parse_number (Number_toString i @ 0x7D # r))"
    using head(2) by (rule parse_value_number)
  moreover have "parse_number (Number_toString i @ 0x7D # r) = Some (of_int i, 0x7D # r)"
    by (rule parse_Number_toString) (simp_all add: isDigit_def)
  ultimately show ?thesis by simp
qed

lemma parse_members_more:
  assumes "parse_value n (v_str @ 0x2C # rest) = Some (v, 0x2C # rest)"
  shows "parse_members (Suc n) (QuoteJSONString k @ 0x3A # v_str @ 0x2C # rest)
           = cons_result (k, v) (parse_members n rest)"
  using assms
  by (simp add: QuoteJSONString_def skip_ws_def isJSONWhiteSpace_def parse_chars_quote_units
      del: parse_chars.simps)

lemma parse_members_last:
  assumes "parse_value n (v_str @ 0x7D # rest) = Some (v, 0x7D # rest)"
  shows "parse_members (Suc n) (QuoteJSONString k @ 0x3A # v_str @ 0x7D # rest)
           = Some ([(k, v)], rest)"
  using assms
  by (simp add: QuoteJSONString_def skip_ws_def isJSONWhiteSpace_def parse_chars_quote_units
      del: parse_chars.simps)

lemma parse_value_object:
  "parse_value (Suc n) (0x7B # QuoteJSONString k @ r)
     = map_option (\<lambda>(ms, r'). (make_object ms, r')) (parse_members n (QuoteJSONString k @ r))"
  by (simp add: QuoteJSONString_def skip_ws_def isJSONWhiteSpace_def del: parse_chars.simps)

lemma stringify_task_shape:
  "stringify_task t @ r =
     0x7B # QuoteJSONString (js ''id'') @ 0x3A # QuoteJSONString (id_t t) @
     0x2C # QuoteJSONString (js ''text'') @ 0x3A # QuoteJSONString (text_t t) @
     0x2C # QuoteJSONString (js ''completed'') @ 0x3A #
       (if completed t then js ''true'' else js ''false'') @
     0x2C # QuoteJSONString (js ''createdAt'') @ 0x3A # Number_toString (createdAt t) @ 0x7D # r"
  by (simp add: stringify_task_def js_def)

lemma make_object_task:
  "make_object [(js ''id'', a), (js ''text'', b), (js ''completed'', c), (js ''createdAt'', d)]
     = JObj [(js ''id'', a), (js ''text'', b), (js ''completed'', c), (js ''createdAt'', d)]"
  by (simp add: make_object_def js_def)

lemma parse_value_task:
  "parse_value (Suc (Suc (Suc (Suc (Suc (Suc n)))))) (stringify_task t @ r) = Some (task_value t, r)"
proof -
  let ?created = "QuoteJSONString (js ''createdAt'') @ 0x3A # Number_toString (createdAt t) @ 0x7D # r"
  let ?completed = "QuoteJSONString (js ''completed'') @ 0x3A #
       (if completed t then js ''true'' else js ''false'') @ 0x2C # ?created"
  let ?text = "QuoteJSONString (js ''text'') @ 0x3A # QuoteJSONString (text_t t) @ 0x2C # ?completed"
  let ?id = "QuoteJSONString (js ''id'') @ 0x3A # QuoteJSONString (id_t t) @ 0x2C # ?text"
  have m4: "parse_members (Suc (Suc n)) ?created
      = Some ([(js ''createdAt'', JNum (of_int (createdAt t)))], r)"
    by (rule parse_members_last) (rule parse_value_int)
  have m3: "parse_members (Suc (Suc (Suc n))) ?completed
      = cons_result (js ''completed'', JBool (completed t)) (parse_members (Suc (Suc n)) ?created)"
    by (rule parse_members_more) (rule parse_value_bool)
  have m2: "parse_members (Suc (Suc (Suc (Suc n)))) ?text
      = cons_result (js ''text'', JStr (text_t t)) (parse_members (Suc (Suc (Suc n))) ?completed)"
    by (rule parse_members_more) (rule parse_value_string)
  have m1: "parse_members (Suc (Suc (Suc (Suc (Suc n))))) ?id
      = cons_result (js ''id'', JStr (id_t t)) (parse_members (Suc (Suc (Suc (Suc n)))) ?text)"
    by (rule parse_members_more) (rule parse_value_string)
  have "parse_members (Suc (Suc (Suc (Suc (Suc n))))) ?id
      = Some ([(js ''id'', JStr (id_t t)), (js ''text'', JStr (text_t t)),
               (js ''completed'', JBool (completed t)),
               (js ''createdAt'', JNum (of_int (createdAt t)))], r)"
    by (simp only: m1 m2 m3 m4 cons_result_def option.map prod.case)
  then have "parse_value (Suc (Suc (Suc (Suc (Suc (Suc n)))))) (0x7B # ?id) = Some (task_value t, r)"
    by (simp only: parse_value_object option.map prod.case make_object_task task_value_def)
  then show ?thesis by (simp only: stringify_task_shape)
qed


lemma join_comma_Cons: "xs \<noteq> [] \<Longrightarrow> join_comma (x # xs) = x @ 0x2C # join_comma xs"
  by (cases xs) simp_all

lemma parse_elements_tasks:
  "ts \<noteq> [] \<Longrightarrow>
   parse_elements (Suc (Suc (Suc (Suc (Suc (Suc (length ts + n)))))))
       (join_comma (map stringify_task ts) @ 0x5D # r)
     = Some (map task_value ts, r)"
proof (induction ts rule: list_nonempty_induct)
  case (single t)
  have pv: "parse_value (Suc (Suc (Suc (Suc (Suc (Suc n)))))) (stringify_task t @ 0x5D # r)
      = Some (task_value t, 0x5D # r)"
    by (rule parse_value_task)
  show ?case
    by (simp add: pv skip_ws_def isJSONWhiteSpace_def del: parse_value.simps)
next
  case (cons t ts)
  let ?rest = "join_comma (map stringify_task ts) @ 0x5D # r"
  from cons.hyps have shape: "join_comma (stringify_task t # map stringify_task ts) @ 0x5D # r
      = stringify_task t @ 0x2C # ?rest"
    by (simp add: join_comma_Cons)
  from cons.hyps obtain k where k: "length ts = Suc k" by (cases ts) auto
  have pv: "parse_value (Suc (Suc (Suc (Suc (Suc (Suc (Suc (k + n))))))))
          (stringify_task t @ 0x2C # ?rest) = Some (task_value t, 0x2C # ?rest)"
    by (rule parse_value_task)
  have "parse_elements (Suc (Suc (Suc (Suc (Suc (Suc (Suc (Suc (k + n)))))))))
          (stringify_task t @ 0x2C # ?rest)
      = cons_result (task_value t)
          (parse_elements (Suc (Suc (Suc (Suc (Suc (Suc (Suc (k + n)))))))) ?rest)"
    by (subst parse_elements.simps(2))
      (simp add: pv skip_ws_def isJSONWhiteSpace_def del: parse_value.simps parse_elements.simps)
  moreover have "parse_elements (Suc (Suc (Suc (Suc (Suc (Suc (Suc (k + n)))))))) ?rest
      = Some (map task_value ts, r)"
    using cons.IH by (simp add: k)
  ultimately show ?case
    by (simp add: shape k cons_result_def del: parse_elements.simps parse_value.simps)
qed

lemma stringify_task_head: "\<exists>body. stringify_task t = 0x7B # body"
  by (simp add: stringify_task_def js_def)

lemma parse_value_tasks:
  "parse_value (Suc (Suc (Suc (Suc (Suc (Suc (Suc (length ts + n)))))))) (JSON_stringify ts @ r)
     = Some (tasks_value ts, r)"
proof (cases ts)
  case Nil
  then show ?thesis
    by (simp add: JSON_stringify_def tasks_value_def skip_ws_def isJSONWhiteSpace_def js_def)
next
  case (Cons t ts')
  then have ne: "ts \<noteq> []" by simp
  obtain body where body: "stringify_task t = 0x7B # body"
    using stringify_task_head by blast
  let ?elems = "join_comma (map stringify_task ts) @ 0x5D # r"
  have head: "?elems = 0x7B # (body @ (if ts' = [] then [] else 0x2C # join_comma (map stringify_task ts')) @ 0x5D # r)"
    by (cases ts') (simp_all add: Cons body)
  have "JSON_stringify ts @ r = 0x5B # ?elems"
    by (simp add: JSON_stringify_def js_def)
  moreover have "parse_value (Suc (Suc (Suc (Suc (Suc (Suc (Suc (length ts + n)))))))) (0x5B # ?elems)
      = map_option (\<lambda>(vs, r). (JArr vs, r))
          (parse_elements (Suc (Suc (Suc (Suc (Suc (Suc (length ts + n))))))) ?elems)"
    unfolding parse_value.simps
    by (subst (1 2) head) (simp add: skip_ws_def isJSONWhiteSpace_def)
  ultimately show ?thesis
    by (simp only: parse_elements_tasks [OF ne] option.map prod.case tasks_value_def)
qed

lemma length_stringify_task: "4 \<le> length (stringify_task t)"
  by (simp add: stringify_task_def QuoteJSONString_def js_def)

lemma length_join_comma: "4 * length ts \<le> length (join_comma (map stringify_task ts))"
proof (induction ts)
  case Nil
  show ?case by simp
next
  case (Cons t ts)
  show ?case
  proof (cases "ts = []")
    case True
    then show ?thesis using length_stringify_task [of t] by simp
  next
    case False
    then have "join_comma (map stringify_task (t # ts))
        = stringify_task t @ 0x2C # join_comma (map stringify_task ts)"
      by (simp add: join_comma_Cons)
    with Cons length_stringify_task [of t] show ?thesis by simp
  qed
qed

lemma JSON_stringify_nonempty: "JSON_stringify ts \<noteq> []"
  by (simp add: JSON_stringify_def js_def)

lemmas parse_fuel_numeral =
  parse_value.simps(2) [of "pred_numeral k" for k, folded numeral_eq_Suc]
  parse_elements.simps(2) [of "pred_numeral k" for k, folded numeral_eq_Suc]
  parse_members.simps(2) [of "pred_numeral k" for k, folded numeral_eq_Suc]

lemmas json_eval =
  JSON_parse_def skip_ws_def isJSONWhiteSpace_def parse_fuel_numeral cons_result_def
  parse_number_def parse_fraction_def parse_exponent_def isDigit_def digits_value_def
  scale10_def make_object_def js_def

text \<open>
  The parser at work: nested values with white space, a duplicate key (\<open>{ "a" : [],
  "b":{"c":"x\u0041\n"}, "a":0.5}\<close>), and texts that are not JSON.
\<close>

lemma JSON_parse_accepts:
  "JSON_parse (js ''[1, -2.5e1 ,true,null]'') = Inr (JArr [JNum 1, JNum (- 25), JBool True, JNull])"
  "JSON_parse
     [0x7B, 0x20, 0x22, 0x61, 0x22, 0x20, 0x3A, 0x20, 0x5B, 0x5D, 0x2C, 0x20,
      0x22, 0x62, 0x22, 0x3A, 0x7B, 0x22, 0x63, 0x22, 0x3A, 0x22, 0x78, 0x5C, 0x75, 0x30, 0x30, 0x34, 0x31,
      0x5C, 0x6E, 0x22, 0x7D, 0x2C, 0x20, 0x22, 0x61, 0x22, 0x3A, 0x30, 0x2E, 0x35, 0x7D]
   = Inr (JObj [(js ''a'', JNum (1 / 2)), (js ''b'', JObj [(js ''c'', JStr [0x78, 0x41, 0x0A])])])"
  by (simp_all add: json_eval hex4_def hex_value_def unescape_def)

lemma JSON_parse_rejects:
  "JSON_parse (js ''[01]'') = Inl SyntaxError" "JSON_parse (js ''[1,]'') = Inl SyntaxError"
  "JSON_parse (js '' '') = Inl SyntaxError" "JSON_parse (js ''1 2'') = Inl SyntaxError"
  "JSON_parse (js ''-'') = Inl SyntaxError" "JSON_parse (js ''{a:1}'') = Inl SyntaxError"
  by (simp_all add: json_eval)

lemma JSON_parse_stringify: "JSON_parse (JSON_stringify ts) = Inr (tasks_value ts)"
proof (cases "ts = []")
  case True
  then show ?thesis
    by (simp add: JSON_stringify_def tasks_value_def json_eval)
next
  case False
  have "length (JSON_stringify ts) = 2 + length (join_comma (map stringify_task ts))"
    by (simp add: JSON_stringify_def js_def)
  with length_join_comma [of ts] False
  have "7 + length ts \<le> 2 * length (JSON_stringify ts) + 1"
    by (cases ts) auto
  then have "2 * length (JSON_stringify ts) + 1
      = Suc (Suc (Suc (Suc (Suc (Suc (Suc (length ts +
          (2 * length (JSON_stringify ts) + 1 - (7 + length ts)))))))))"
    by arith
  then obtain n where "2 * length (JSON_stringify ts) + 1
      = Suc (Suc (Suc (Suc (Suc (Suc (Suc (length ts + n)))))))" ..
  moreover have "parse_value (Suc (Suc (Suc (Suc (Suc (Suc (Suc (length ts + n))))))))
      (JSON_stringify ts @ []) = Some (tasks_value ts, [])"
    by (rule parse_value_tasks)
  ultimately show ?thesis
    by (simp add: JSON_parse_def skip_ws_def del: parse_value.simps)
qed

lemma task_value_inject: "task_value t = task_value t' \<longleftrightarrow> t = t'"
  by (cases t; cases t') (auto simp: task_value_def)

lemma tasks_value_inject: "tasks_value ts = tasks_value ts' \<longleftrightarrow> ts = ts'"
proof -
  have "inj task_value" by (simp add: inj_def task_value_inject)
  then show ?thesis by (simp add: tasks_value_def inj_map_eq_map)
qed

text \<open>
  C3. Round-trip persistence: for every task list, when the storage accepts the write of
  the effect, the stored string is \<open>JSON.stringify\<close> of the list, and the initializer
  reading that storage returns the list itself as a value (equal values are equal
  lists): parsing undoes serialising on task lists.
\<close>

theorem load_after_persist:
  "useLocalStorage_effect True store key ts = Inr (store(key \<mapsto> JSON_stringify ts)) \<and>
   useLocalStorage_init True (store(key \<mapsto> JSON_stringify ts)) key initialValue
     = Inr (tasks_value ts) \<and>
   (tasks_value ts' = tasks_value ts \<longleftrightarrow> ts' = ts)"
  by (simp add: useLocalStorage_effect_def useLocalStorage_init_def setItem_def getItem_def
      try_catch_def JSON_stringify_nonempty JSON_parse_stringify tasks_value_inject)

theorem load_after_persist_witness:
  "useLocalStorage_init True
     (Map.empty(js ''todoapp-v1'' \<mapsto> JSON_stringify [example_task, example_done]))
     (js ''todoapp-v1'') (JArr [])
   = Inr (JArr [JObj [(js ''id'', JStr (js ''1'')), (js ''text'', JStr (js ''Buy milk'')),
                      (js ''completed'', JBool False), (js ''createdAt'', JNum 0)],
                JObj [(js ''id'', JStr (js ''2'')), (js ''text'', JStr (js ''Call mom'')),
                      (js ''completed'', JBool True), (js ''createdAt'', JNum 0)]])"
  using load_after_persist [of Map.empty "js ''todoapp-v1''" "[example_task, example_done]"
      "JArr []" "[]"]
  by (simp add: tasks_value_def task_value_def example_task_def example_done_def)

text \<open>
  C9 (as amended). The initializer is total and never raises: it always returns a value.
  When the read is refused, the key is absent, the stored string is empty or is not
  JSON, it returns the initial value (the empty list); otherwise it returns the value
  \<open>JSON.parse\<close> produced, whatever its shape.
\<close>

theorem load_total:
  "(\<exists>v. useLocalStorage_init readable store key initialValue = Inr v) \<and>
   (\<not> readable \<or> store key = None \<or> store key = Some [] \<or>
      (\<exists>raw e. store key = Some raw \<and> JSON_parse raw = Inl e)
    \<longrightarrow> useLocalStorage_init readable store key initialValue = Inr initialValue) \<and>
   (readable \<and> store key = Some raw \<and> raw \<noteq> [] \<and> JSON_parse raw = Inr v
    \<longrightarrow> useLocalStorage_init readable store key initialValue = Inr v)"
  by (auto simp: useLocalStorage_init_def getItem_def try_catch_def
      split: option.splits sum.splits)

lemma parse_examples:
  "JSON_parse (js ''nul'') = Inl SyntaxError"
  "JSON_parse (js ''[]'') = Inr (JArr [])"
  "JSON_parse (js ''{}'') = Inr (JObj [])"
  by (simp_all add: json_eval)

theorem load_total_witness:
  "useLocalStorage_init True Map.empty (js ''todoapp-v1'') (JArr []) = Inr (JArr []) \<and>
   useLocalStorage_init False (Map.empty(js ''todoapp-v1'' \<mapsto> js ''[]'')) (js ''todoapp-v1'') JNull
     = Inr JNull \<and>
   JSON_parse (js ''nul'') = Inl SyntaxError \<and>
   useLocalStorage_init True (Map.empty(js ''todoapp-v1'' \<mapsto> js ''nul'')) (js ''todoapp-v1'') (JArr [])
     = Inr (JArr []) \<and>
   JSON_parse (js ''[]'') = Inr (JArr []) \<and>
   useLocalStorage_init True (Map.empty(js ''todoapp-v1'' \<mapsto> js ''[]'')) (js ''todoapp-v1'') JNull
     = Inr (JArr [])"
proof -
  have ne: "js ''[]'' \<noteq> []" by (simp add: js_def)
  have a: "useLocalStorage_init True Map.empty (js ''todoapp-v1'') (JArr []) = Inr (JArr [])"
    using load_total [of True Map.empty "js ''todoapp-v1''" "JArr []"] by simp
  have b: "useLocalStorage_init False (Map.empty(js ''todoapp-v1'' \<mapsto> js ''[]'')) (js ''todoapp-v1'') JNull
     = Inr JNull"
    using load_total [of False "Map.empty(js ''todoapp-v1'' \<mapsto> js ''[]'')" "js ''todoapp-v1''" JNull]
    by simp
  have c: "useLocalStorage_init True (Map.empty(js ''todoapp-v1'' \<mapsto> js ''nul'')) (js ''todoapp-v1'') (JArr [])
     = Inr (JArr [])"
    using load_total [of True "Map.empty(js ''todoapp-v1'' \<mapsto> js ''nul'')" "js ''todoapp-v1''" "JArr []"]
      parse_examples(1) by auto
  have d: "useLocalStorage_init True (Map.empty(js ''todoapp-v1'' \<mapsto> js ''[]'')) (js ''todoapp-v1'') JNull
     = Inr (JArr [])"
    using load_total [of True "Map.empty(js ''todoapp-v1'' \<mapsto> js ''[]'')" "js ''todoapp-v1''" JNull
        "js ''[]''" "JArr []"] parse_examples(2) ne by simp
  from a b c d parse_examples show ?thesis by simp
qed

text \<open>
  The claim as stated has the empty list returned whenever the stored value fails to
  parse as a task array. The stored string \<open>{}\<close> is JSON and parses to an object, which
  is no task array; the initializer returns that object, not the empty list.
\<close>

theorem load_wrong_shape_counterexample:
  "JSON_parse (js ''{}'') = Inr (JObj []) \<and>
   JObj [] \<notin> range tasks_value \<and>
   useLocalStorage_init True (Map.empty(js ''todoapp-v1'' \<mapsto> js ''{}'')) (js ''todoapp-v1'') (JArr [])
     = Inr (JObj []) \<and>
   JObj [] \<noteq> JArr []"
proof -
  have ne: "js ''{}'' \<noteq> []" by (simp add: js_def)
  have "JObj [] \<notin> range tasks_value" by (auto simp: tasks_value_def)
  with ne parse_examples(3) show ?thesis
    by (simp add: useLocalStorage_init_def getItem_def try_catch_def)
qed

end
